theory Spec2Isabelle
  imports Complex_Main
begin

section \<open>Numbers\<close>

text \<open>
  The library computes with JavaScript numbers. The model keeps the special values
  that the source tests for (\<open>NaN\<close>, \<open>Number.POSITIVE_INFINITY\<close>,
  \<open>Number.NEGATIVE_INFINITY\<close>, \<open>Number.isFinite\<close>) and the way the operators
  produce them (\<open>x / 0\<close>, \<open>Infinity - Infinity\<close>, comparisons with \<open>NaN\<close>).
  Finite values are exact rationals: rounding, overflow of doubles and the sign of
  zero are not modelled.
\<close>

datatype number = NaN | NegInf | Fin rat | PosInf

fun isNaN :: "number \<Rightarrow> bool" where
  "isNaN NaN = True"
| "isNaN _ = False"

fun isFinite :: "number \<Rightarrow> bool" where
  "isFinite (Fin _) = True"
| "isFinite _ = False"

text \<open>\<open>a < b\<close>; every comparison with \<open>NaN\<close> is false.\<close>

fun js_lt :: "number \<Rightarrow> number \<Rightarrow> bool" where
  "js_lt NaN _ = False"
| "js_lt _ NaN = False"
| "js_lt (Fin a) (Fin b) = (a < b)"
| "js_lt _ NegInf = False"
| "js_lt NegInf _ = True"
| "js_lt PosInf _ = False"
| "js_lt (Fin _) PosInf = True"

text \<open>\<open>a <= b\<close>.\<close>

fun js_le :: "number \<Rightarrow> number \<Rightarrow> bool" where
  "js_le NaN _ = False"
| "js_le _ NaN = False"
| "js_le (Fin a) (Fin b) = (a \<le> b)"
| "js_le NegInf _ = True"
| "js_le _ PosInf = True"
| "js_le PosInf _ = False"
| "js_le (Fin _) NegInf = False"

text \<open>\<open>a > b\<close>.\<close>

definition js_gt :: "number \<Rightarrow> number \<Rightarrow> bool" where
  "js_gt a b = js_lt b a"

fun js_neg :: "number \<Rightarrow> number" where
  "js_neg NaN = NaN"
| "js_neg NegInf = PosInf"
| "js_neg (Fin a) = Fin (- a)"
| "js_neg PosInf = NegInf"

fun js_add :: "number \<Rightarrow> number \<Rightarrow> number" where
  "js_add NaN _ = NaN"
| "js_add _ NaN = NaN"
| "js_add (Fin a) (Fin b) = Fin (a + b)"
| "js_add PosInf NegInf = NaN"
| "js_add NegInf PosInf = NaN"
| "js_add PosInf _ = PosInf"
| "js_add NegInf _ = NegInf"
| "js_add (Fin _) b = b"

definition js_sub :: "number \<Rightarrow> number \<Rightarrow> number" where
  "js_sub a b = js_add a (js_neg b)"

text \<open>The sign of a number that is not \<open>NaN\<close>: \<open>-1\<close>, \<open>0\<close> or \<open>1\<close>.\<close>

fun sign_of :: "number \<Rightarrow> int" where
  "sign_of NaN = 0"
| "sign_of NegInf = - 1"
| "sign_of PosInf = 1"
| "sign_of (Fin a) = (if a < 0 then - 1 else if a = 0 then 0 else 1)"

definition signed_inf :: "int \<Rightarrow> number" where
  "signed_inf sg = (if sg < 0 then NegInf else if sg = 0 then NaN else PosInf)"

fun js_mul :: "number \<Rightarrow> number \<Rightarrow> number" where
  "js_mul NaN _ = NaN"
| "js_mul _ NaN = NaN"
| "js_mul (Fin a) (Fin b) = Fin (a * b)"
| "js_mul a b = signed_inf (sign_of a * sign_of b)"

text \<open>
  \<open>a / b\<close>: a finite number divided by zero is an infinity of its sign, and \<open>0 / 0\<close>
  is \<open>NaN\<close> (zero is taken as positive zero).
\<close>

fun js_div :: "number \<Rightarrow> number \<Rightarrow> number" where
  "js_div NaN _ = NaN"
| "js_div _ NaN = NaN"
| "js_div (Fin a) (Fin b) = (if b = 0 then signed_inf (sign_of (Fin a)) else Fin (a / b))"
| "js_div (Fin _) _ = Fin 0"
| "js_div a (Fin b) = signed_inf (sign_of a * (if b < 0 then - 1 else 1))"
| "js_div _ _ = NaN"

text \<open>\<open>Math.min\<close> and \<open>Math.max\<close>: \<open>NaN\<close> as soon as one argument is.\<close>

definition js_min :: "number \<Rightarrow> number \<Rightarrow> number" where
  "js_min a b = (if isNaN a \<or> isNaN b then NaN else if js_le a b then a else b)"

definition js_max :: "number \<Rightarrow> number \<Rightarrow> number" where
  "js_max a b = (if isNaN a \<or> isNaN b then NaN else if js_le a b then b else a)"

section \<open>The token bucket\<close>

text \<open>The failures of the library: a thrown \<open>Error\<close> on a malformed argument, and \<open>CanceledError\<close>.\<close>

datatype error = InvalidArgument | Canceled

record Rate =
  amount :: number
  intervalMs :: number

text \<open>
  A continuous restorer is an object holding a rate; the set of installed restorers
  compares objects by identity, which the model keeps as a number.
\<close>

record ContinuousTokenRestorer =
  restorerId :: nat
  rate :: Rate

text \<open>
  A discrete restorer is known to the bucket by its identity only; each of its ticks
  calls the function the bucket subscribed.
\<close>

datatype TokenRestorer = Continuous ContinuousTokenRestorer | Discrete nat

record TokenBucketOptions =
  initialTokens :: number
  optMaxTokens :: "number option"

text \<open>
  The fields of \<open>TokenBucket\<close>. The waiters are an ordered tree keyed by the requested
  token count, each with the resolve function of its promise: the model keeps the
  entries in key order, with a number standing for the identity of the resolve function.
  The installed discrete restorers are kept by identity, without their teardown functions.
  \<open>checkListenersHandle\<close> is the pending timeout, with the delay it was armed for;
  \<open>resolved\<close> is the trace of resolve functions called so far, in call order.
\<close>

record TokenBucket =
  tokenContent :: number
  maxTokens :: number
  continuousTokenRestorers :: "ContinuousTokenRestorer list"
  continuousRestoreRatePerMs :: number
  continuousRestoreLastTimestamp :: rat
  discreteTokenRestorers :: "nat list"
  tokenListeners :: "(number \<times> nat) list"
  checkListenersHandle :: "number option"
  resolved :: "nat list"

definition TokenBucket_new :: "TokenBucketOptions \<Rightarrow> error + TokenBucket" where
  "TokenBucket_new options =
     (if \<not> isFinite (initialTokens options) \<or> js_lt (initialTokens options) (Fin 0)
      then Inl InvalidArgument
      else if (case optMaxTokens options of None \<Rightarrow> False
               | Some m \<Rightarrow> isNaN m \<or> js_lt m (Fin 0))
      then Inl InvalidArgument
      else
        let m = (case optMaxTokens options of None \<Rightarrow> PosInf | Some m \<Rightarrow> m)
        in Inr \<lparr> tokenContent = js_min (initialTokens options) m,
                 maxTokens = m,
                 continuousTokenRestorers = [],
                 continuousRestoreRatePerMs = Fin 0,
                 continuousRestoreLastTimestamp = 0,
                 discreteTokenRestorers = [],
                 tokenListeners = [],
                 checkListenersHandle = None,
                 resolved = [] \<rparr>)"

definition addTokensToBucket :: "number \<Rightarrow> 'a TokenBucket_scheme \<Rightarrow> 'a TokenBucket_scheme" where
  "addTokensToBucket tokenCount s =
     (let s1 = s\<lparr>tokenContent := js_add (tokenContent s) tokenCount\<rparr>
      in if js_gt (tokenContent s1) (maxTokens s1)
         then s1\<lparr>tokenContent := maxTokens s1\<rparr>
         else s1)"

text \<open>
  \<open>performance.now()\<close> is the argument \<open>now\<close> of every operation: one reading of the
  clock for each synchronous call.
\<close>

definition restoreContinuousTokens :: "rat \<Rightarrow> 'a TokenBucket_scheme \<Rightarrow> 'a TokenBucket_scheme" where
  "restoreContinuousTokens now s =
     (let tokenCount = js_mul (continuousRestoreRatePerMs s)
                         (js_sub (Fin now) (Fin (continuousRestoreLastTimestamp s)))
      in (addTokensToBucket tokenCount s)\<lparr>continuousRestoreLastTimestamp := now\<rparr>)"

definition getConsumableTokens :: "rat \<Rightarrow> 'a TokenBucket_scheme \<Rightarrow> number \<times> 'a TokenBucket_scheme" where
  "getConsumableTokens now s =
     (let s1 = restoreContinuousTokens now s in (tokenContent s1, s1))"

text \<open>
  The loop of \<open>_checkListeners\<close>: while the first waiter of the tree asks for at most
  the consumable tokens, call its resolve function and remove it. The result is the
  resolve functions called, in order, and the waiters left.
\<close>

fun resolveListeners :: "number \<Rightarrow> (number \<times> nat) list \<Rightarrow> nat list \<times> (number \<times> nat) list" where
  "resolveListeners consumableTokens [] = ([], [])"
| "resolveListeners consumableTokens ((k, cb) # ls) =
     (if js_le k consumableTokens
      then (let (rs, rest) = resolveListeners consumableTokens ls in (cb # rs, rest))
      else ([], (k, cb) # ls))"

definition getWaitTimeForRecheck :: "rat \<Rightarrow> TokenBucket \<Rightarrow> number \<times> TokenBucket" where
  "getWaitTimeForRecheck now s =
     (let minTokenCount = (case tokenListeners s of [] \<Rightarrow> PosInf | (k, _) # _ \<Rightarrow> k);
          s1 = restoreContinuousTokens now s;
          missingTokenCount = js_max (Fin 0) (js_sub minTokenCount (tokenContent s1))
      in (js_div missingTokenCount (continuousRestoreRatePerMs s1), s1))"

text \<open>
  \<open>_checkListeners\<close> and \<open>_scheduleCheckListeners\<close> call each other, each as its last
  action. \<open>scheduleStep\<close> is \<open>_scheduleCheckListeners\<close> up to that call: it returns
  whether \<open>_checkListeners\<close> is to run next. \<open>resolvePass\<close> is \<open>_checkListeners\<close> up
  to its call of \<open>_scheduleCheckListeners\<close>.
\<close>

definition scheduleStep :: "rat \<Rightarrow> TokenBucket \<Rightarrow> bool \<times> TokenBucket" where
  "scheduleStep now s =
     (let s0 = s\<lparr>checkListenersHandle := None\<rparr>
      in if tokenListeners s0 \<noteq> []
         then (let (waitTime, s1) = getWaitTimeForRecheck now s0
               in if isFinite waitTime
                  then (if js_le waitTime (Fin 0) then (True, s1)
                        else (False, s1\<lparr>checkListenersHandle := Some waitTime\<rparr>))
                  else (False, s1))
         else (False, s0))"

definition resolvePass :: "rat \<Rightarrow> TokenBucket \<Rightarrow> TokenBucket" where
  "resolvePass now s =
     (if tokenListeners s \<noteq> []
      then (let (consumableTokens, s1) = getConsumableTokens now s;
                (rs, rest) = resolveListeners consumableTokens (tokenListeners s1)
            in s1\<lparr>tokenListeners := rest, resolved := resolved s1 @ rs\<rparr>)
      else s)"

text \<open>
  The mutual recursion need not end (with a negative restoration rate it does not), so
  the result is optional: \<open>None\<close> is a call that never returns.
\<close>

partial_function (option) checkListeners :: "rat \<Rightarrow> TokenBucket \<Rightarrow> TokenBucket option" where
  "checkListeners now s =
     (let (checkAgain, s1) = scheduleStep now (resolvePass now s)
      in if checkAgain then checkListeners now s1 else Some s1)"

declare checkListeners.simps [code]

definition scheduleCheckListeners :: "rat \<Rightarrow> TokenBucket \<Rightarrow> TokenBucket option" where
  "scheduleCheckListeners now s =
     (let (checkAgain, s1) = scheduleStep now s
      in if checkAgain then checkListeners now s1 else Some s1)"

definition onTokensConsumed :: "number \<Rightarrow> rat \<Rightarrow> TokenBucket \<Rightarrow> TokenBucket option" where
  "onTokensConsumed count now s = scheduleCheckListeners now s"

definition consumeTokens :: "number \<Rightarrow> rat \<Rightarrow> TokenBucket \<Rightarrow> (error + bool \<times> TokenBucket) option" where
  "consumeTokens count now s =
     (if js_lt count (Fin 0) then Some (Inl InvalidArgument)
      else (let (consumableTokens, s1) = getConsumableTokens now s
            in if js_le count consumableTokens
               then map_option (\<lambda>s3. Inr (True, s3))
                      (onTokensConsumed count now (s1\<lparr>tokenContent := js_sub (tokenContent s1) count\<rparr>))
               else Some (Inr (False, s1))))"

text \<open>
  Insertion into the ordered tree of the library the source uses: the new entry goes
  left of every entry whose key is not smaller (its comparison is \<open>a < b\<close>, \<open>a > b\<close>,
  else equal). The list of the entries in key order stands for the tree; it is exact as
  long as no key is \<open>NaN\<close>.
\<close>

fun treeInsert :: "number \<Rightarrow> 'v \<Rightarrow> (number \<times> 'v) list \<Rightarrow> (number \<times> 'v) list" where
  "treeInsert k v [] = [(k, v)]"
| "treeInsert k v ((k', v') # ls) =
     (if js_gt k k' then (k', v') # treeInsert k v ls else (k, v) # (k', v') # ls)"

text \<open>
  \<open>onceTokensAvailable\<close>: \<open>cb\<close> is the resolve function of the promise the call creates.
\<close>

definition onceTokensAvailable :: "number \<Rightarrow> nat \<Rightarrow> rat \<Rightarrow> TokenBucket \<Rightarrow> (error + TokenBucket) option" where
  "onceTokensAvailable count cb now s =
     (if js_gt count (maxTokens s) then Some (Inl InvalidArgument)
      else map_option Inr
             (checkListeners now (s\<lparr>tokenListeners := treeInsert count cb (tokenListeners s)\<rparr>)))"

text \<open>\<open>ContinuousTokenRestorer.computeAggregateRatePerMs\<close>.\<close>

definition computeAggregateRatePerMs :: "ContinuousTokenRestorer list \<Rightarrow> number" where
  "computeAggregateRatePerMs restorers =
     foldl (\<lambda>amountPerMs r. js_add amountPerMs (js_div (amount (rate r)) (intervalMs (rate r))))
       (Fin 0) restorers"

text \<open>The set of continuous restorers: membership, \<open>add\<close> and \<open>delete\<close> by identity.\<close>

definition hasRestorer :: "ContinuousTokenRestorer list \<Rightarrow> ContinuousTokenRestorer \<Rightarrow> bool" where
  "hasRestorer rs r = (restorerId r \<in> set (map restorerId rs))"

definition addOrRemoveContinuousRestorer ::
  "ContinuousTokenRestorer \<Rightarrow> bool \<Rightarrow> rat \<Rightarrow> TokenBucket \<Rightarrow> TokenBucket option" where
  "addOrRemoveContinuousRestorer restorer add now s =
     (let s1 = restoreContinuousTokens now s;
          rs = (if add
                then (if hasRestorer (continuousTokenRestorers s1) restorer
                      then continuousTokenRestorers s1
                      else continuousTokenRestorers s1 @ [restorer])
                else filter (\<lambda>r. restorerId r \<noteq> restorerId restorer) (continuousTokenRestorers s1));
          s2 = s1\<lparr>continuousTokenRestorers := rs\<rparr>;
          s3 = s2\<lparr>continuousRestoreRatePerMs := computeAggregateRatePerMs (continuousTokenRestorers s2)\<rparr>
      in scheduleCheckListeners now s3)"

text \<open>
  The function a discrete restorer calls at each tick, subscribed by \<open>addTokenRestorer\<close>.
\<close>

definition discreteTick :: "number \<Rightarrow> rat \<Rightarrow> TokenBucket \<Rightarrow> TokenBucket option" where
  "discreteTick count now s = checkListeners now (addTokensToBucket count s)"

definition addTokenRestorer :: "TokenRestorer \<Rightarrow> rat \<Rightarrow> TokenBucket \<Rightarrow> (bool \<times> TokenBucket) option" where
  "addTokenRestorer restorer now s =
     (case restorer of
        Continuous r \<Rightarrow>
          (if \<not> hasRestorer (continuousTokenRestorers s) r
           then map_option (\<lambda>s'. (True, s')) (addOrRemoveContinuousRestorer r True now s)
           else Some (False, s))
      | Discrete d \<Rightarrow>
          (if d \<notin> set (discreteTokenRestorers s)
           then Some (True, s\<lparr>discreteTokenRestorers := discreteTokenRestorers s @ [d]\<rparr>)
           else Some (False, s)))"

definition removeTokenRestorer :: "TokenRestorer \<Rightarrow> rat \<Rightarrow> TokenBucket \<Rightarrow> (bool \<times> TokenBucket) option" where
  "removeTokenRestorer restorer now s =
     (case restorer of
        Continuous r \<Rightarrow>
          (if hasRestorer (continuousTokenRestorers s) r
           then map_option (\<lambda>s'. (True, s')) (addOrRemoveContinuousRestorer r False now s)
           else Some (False, s))
      | Discrete d \<Rightarrow>
          (if d \<in> set (discreteTokenRestorers s)
           then Some (True, s\<lparr>discreteTokenRestorers := removeAll d (discreteTokenRestorers s)\<rparr>)
           else Some (False, s)))"

definition disconnectRestorers :: "rat \<Rightarrow> TokenBucket \<Rightarrow> TokenBucket option" where
  "disconnectRestorers now s =
     (let s1 = restoreContinuousTokens now s;
          s2 = s1\<lparr>continuousTokenRestorers := [], continuousRestoreRatePerMs := Fin 0\<rparr>
      in map_option (\<lambda>s3. s3\<lparr>discreteTokenRestorers := []\<rparr>) (scheduleCheckListeners now s2))"

subsection \<open>Sequences of calls on a bucket\<close>

text \<open>
  What can happen to a bucket: the public operations, a tick of a discrete restorer, the
  recheck timeout firing (it runs \<open>_checkListeners\<close>), and the folding of the continuous
  accrual alone. Each comes with the clock reading at which it runs.
\<close>

datatype bucketCall =
    ConsumeTokens number
  | OnceTokensAvailable number nat
  | ContinuousAccrual
  | DiscreteTick number
  | RecheckTimeout
  | AddTokenRestorer TokenRestorer
  | RemoveTokenRestorer TokenRestorer
  | DisconnectRestorers

text \<open>The bucket after a call; a call that throws leaves the bucket as the throw left it.\<close>

fun bucketStep :: "rat \<Rightarrow> bucketCall \<Rightarrow> TokenBucket \<Rightarrow> TokenBucket option" where
  "bucketStep now (ConsumeTokens count) s =
     map_option (\<lambda>r. case r of Inl _ \<Rightarrow> s | Inr (_, s') \<Rightarrow> s') (consumeTokens count now s)"
| "bucketStep now (OnceTokensAvailable count cb) s =
     map_option (\<lambda>r. case r of Inl _ \<Rightarrow> s | Inr s' \<Rightarrow> s') (onceTokensAvailable count cb now s)"
| "bucketStep now ContinuousAccrual s = Some (restoreContinuousTokens now s)"
| "bucketStep now (DiscreteTick count) s = discreteTick count now s"
| "bucketStep now RecheckTimeout s = checkListeners now s"
| "bucketStep now (AddTokenRestorer r) s = map_option snd (addTokenRestorer r now s)"
| "bucketStep now (RemoveTokenRestorer r) s = map_option snd (removeTokenRestorer r now s)"
| "bucketStep now DisconnectRestorers s = disconnectRestorers now s"

text \<open>The states a bucket goes through under a sequence of timed calls, the first included.\<close>

fun bucketTrace :: "TokenBucket \<Rightarrow> (rat \<times> bucketCall) list \<Rightarrow> TokenBucket list option" where
  "bucketTrace s [] = Some [s]"
| "bucketTrace s ((now, c) # cs) =
     (case bucketStep now c s of
        None \<Rightarrow> None
      | Some s' \<Rightarrow> map_option (\<lambda>ss. s # ss) (bucketTrace s' cs))"

text \<open>
  The data model of the calls: a rate has a finite amount that is not negative and a
  finite positive interval, a tick restores a finite amount that is not negative, and the
  clock never runs backwards, starting from \<open>t0\<close>.
\<close>

definition validRate :: "Rate \<Rightarrow> bool" where
  "validRate rt =
     ((case amount rt of Fin a \<Rightarrow> 0 \<le> a | _ \<Rightarrow> False) \<and>
      (case intervalMs rt of Fin i \<Rightarrow> 0 < i | _ \<Rightarrow> False))"

fun validCall :: "bucketCall \<Rightarrow> bool" where
  "validCall (DiscreteTick count) = (case count of Fin a \<Rightarrow> 0 \<le> a | _ \<Rightarrow> False)"
| "validCall (AddTokenRestorer (Continuous r)) = validRate (rate r)"
| "validCall _ = True"

fun validSchedule :: "rat \<Rightarrow> (rat \<times> bucketCall) list \<Rightarrow> bool" where
  "validSchedule t0 [] = True"
| "validSchedule t0 ((now, c) # cs) = (t0 \<le> now \<and> validCall c \<and> validSchedule now cs)"

text \<open>
  The states in which the operations are studied: the content is a finite number between
  zero and the capacity, and the restorers and their aggregate rate follow the data model.
\<close>

definition wellFormed :: "TokenBucket \<Rightarrow> bool" where
  "wellFormed s =
     ((case tokenContent s of Fin t \<Rightarrow> 0 \<le> t | _ \<Rightarrow> False) \<and>
      js_le (tokenContent s) (maxTokens s) \<and>
      (case continuousRestoreRatePerMs s of Fin r \<Rightarrow> 0 \<le> r | _ \<Rightarrow> False) \<and>
      (\<forall>r \<in> set (continuousTokenRestorers s). validRate (rate r)))"

text \<open>
  The order of the library's tree: the entries are in ascending key order, and no key is
  \<open>NaN\<close> (which the comparison of the library cannot place).
\<close>

definition treeOrdered :: "(number \<times> 'v) list \<Rightarrow> bool" where
  "treeOrdered t =
     (sorted_wrt (\<lambda>x y. js_le (fst x) (fst y)) t \<and> (\<forall>e \<in> set t. \<not> isNaN (fst e)))"

section \<open>The rolling-window bucket\<close>

text \<open>
  \<open>RollingWindowTokenBucket\<close> extends \<open>TokenBucket\<close> with the history of consumed tokens:
  an ordered tree from the time of a consumption to the tokens consumed then, kept here as
  the list of its entries in key order.
\<close>

record RollingWindowTokenBucket = TokenBucket +
  historyIntervalMs :: number
  maxHistoryTokens :: number
  history :: "(rat \<times> number) list"
  cleanUpHandle :: "number option"

text \<open>The loop of \<open>_cleanupHistoricTokens\<close>: remove the first entry while it has expired.\<close>

fun removeExpired :: "number \<Rightarrow> (rat \<times> number) list \<Rightarrow> (rat \<times> number) list" where
  "removeExpired expiryTimestamp [] = []"
| "removeExpired expiryTimestamp ((k, v) # h) =
     (if js_lt (Fin k) expiryTimestamp then removeExpired expiryTimestamp h else (k, v) # h)"

definition cleanupHistoricTokens :: "rat \<Rightarrow> RollingWindowTokenBucket \<Rightarrow> RollingWindowTokenBucket" where
  "cleanupHistoricTokens now s =
     (let expiryTimestamp = js_sub (Fin now) (historyIntervalMs s)
      in s\<lparr>history := removeExpired expiryTimestamp (history s)\<rparr>)"

definition countAndCleanupHistoricTokens ::
  "rat \<Rightarrow> RollingWindowTokenBucket \<Rightarrow> number \<times> RollingWindowTokenBucket" where
  "countAndCleanupHistoricTokens now s =
     (let s1 = cleanupHistoricTokens now s;
          total = foldl (\<lambda>total (key, v). js_add total v) (Fin 0) (history s1)
      in (total, s1))"

text \<open>The override of \<open>_getConsumableTokens\<close>; \<open>getConsumableTokens\<close> is the one it overrides.\<close>

definition rollingWindowGetConsumableTokens ::
  "rat \<Rightarrow> RollingWindowTokenBucket \<Rightarrow> number \<times> RollingWindowTokenBucket" where
  "rollingWindowGetConsumableTokens now s =
     (let (spent, s1) = countAndCleanupHistoricTokens now s;
          (baseTokens, s2) = getConsumableTokens now s1
      in (js_min (js_sub (maxHistoryTokens s) spent) baseTokens, s2))"

text \<open>
  The words of the specification: an entry is older than the window when its age exceeds
  \<open>historyIntervalMs\<close>, and the current window spend is the sum of the entries that are not.
\<close>

definition olderThanWindow :: "rat \<Rightarrow> number \<Rightarrow> rat \<Rightarrow> bool" where
  "olderThanWindow now interval key = js_gt (js_sub (Fin now) (Fin key)) interval"

definition currentWindowSpend :: "rat \<Rightarrow> RollingWindowTokenBucket \<Rightarrow> number" where
  "currentWindowSpend now s =
     foldl js_add (Fin 0)
       (map snd (filter (\<lambda>e. \<not> olderThanWindow now (historyIntervalMs s) (fst e)) (history s)))"

section \<open>The rate limiter\<close>

text \<open>
  An awaiter holds the requested tokens and the resolve and reject functions of its
  promise; a number stands for the identity of the two functions.
\<close>

record Awaiter =
  tokenCount :: number
  awaiterId :: nat

text \<open>
  The fields of \<open>PrioritizedFifoRateLimiter\<close> without the watcher: the bucket, the stagger
  time, the awaiters (an ordered tree from a priority to the queue of the awaiters of
  that priority, kept as the list of its entries in key order) and the time of the last
  consumption.
\<close>

record 'b PrioritizedFifoRateLimiter =
  tokenBucket :: 'b
  minStaggerTime :: number
  awaiters :: "(number \<times> Awaiter list) list"
  lastConsumed :: number

text \<open>
  The other operations of the library's tree: \<open>get\<close> and \<open>find\<close> look for an entry whose key
  compares equal, \<open>end\<close> is the entry of the greatest key, an iterator's \<open>remove\<close> deletes
  the entry it stands on. \<open>treeSet\<close> stands for a change made in place to the value found.
\<close>

definition keyEq :: "number \<Rightarrow> number \<Rightarrow> bool" where
  "keyEq a b = (\<not> js_lt a b \<and> \<not> js_gt a b)"

fun treeGet :: "number \<Rightarrow> (number \<times> 'v) list \<Rightarrow> 'v option" where
  "treeGet p [] = None"
| "treeGet p ((k, v) # t) = (if keyEq p k then Some v else treeGet p t)"

fun treeSet :: "number \<Rightarrow> 'v \<Rightarrow> (number \<times> 'v) list \<Rightarrow> (number \<times> 'v) list" where
  "treeSet p v [] = []"
| "treeSet p v ((k, v') # t) = (if keyEq p k then (k, v) # t else (k, v') # treeSet p v t)"

fun treeRemove :: "number \<Rightarrow> (number \<times> 'v) list \<Rightarrow> (number \<times> 'v) list" where
  "treeRemove p [] = []"
| "treeRemove p ((k, v) # t) = (if keyEq p k then t else (k, v) # treeRemove p t)"

definition treeEnd :: "(number \<times> 'v) list \<Rightarrow> (number \<times> 'v) option" where
  "treeEnd t = (if t = [] then None else Some (last t))"

definition addAwaiter ::
  "number \<Rightarrow> Awaiter \<Rightarrow> (number \<times> Awaiter list) list \<Rightarrow> (number \<times> Awaiter list) list" where
  "addAwaiter priority awaiter t =
     (case treeGet priority t of
        Some queue \<Rightarrow> treeSet priority (queue @ [awaiter]) t
      | None \<Rightarrow> treeInsert priority [awaiter] t)"

text \<open>The scan of \<open>_removeFirstAwaiter\<close>: remove the first awaiter that the predicate accepts.\<close>

fun removeOne :: "('a \<Rightarrow> bool) \<Rightarrow> 'a list \<Rightarrow> bool \<times> 'a list" where
  "removeOne predicate [] = (False, [])"
| "removeOne predicate (x # xs) =
     (if predicate x then (True, xs)
      else (let (success, rest) = removeOne predicate xs in (success, x # rest)))"

definition removeFirstAwaiter ::
  "number \<Rightarrow> (Awaiter \<Rightarrow> bool) \<Rightarrow> (number \<times> Awaiter list) list
     \<Rightarrow> bool \<times> (number \<times> Awaiter list) list" where
  "removeFirstAwaiter priority predicate t =
     (case treeGet priority t of
        None \<Rightarrow> (False, t)
      | Some queue \<Rightarrow>
          (let (success, queue') = removeOne predicate queue
           in if queue' = [] then (success, treeRemove priority t)
              else (success, treeSet priority queue' t)))"

text \<open>
  What the watcher reads once its stagger delay is over: the first awaiter of the queue of
  the greatest priority.
\<close>

definition nextAwaiter :: "(number \<times> Awaiter list) list \<Rightarrow> (number \<times> Awaiter) option" where
  "nextAwaiter t =
     (case treeEnd t of
        None \<Rightarrow> None
      | Some (priority, queue) \<Rightarrow>
          (case queue of [] \<Rightarrow> None | awaiter # _ \<Rightarrow> Some (priority, awaiter)))"

text \<open>
  What happens to the queues of a limiter: a call of \<open>consumeTokensAsync\<close> adds an awaiter,
  the cancel function of a call removes its awaiter, and a watcher whose token
  consumption succeeded removes the awaiter it read and resolves it. The state is the
  tree together with two traces: the calls still pending, in the order of their arrival,
  and the awaiters resolved, in the order of their resolution.
\<close>

datatype limiterEvent =
    ConsumeTokensAsync number number nat
  | CancelCall number Awaiter
  | WatcherServes

type_synonym limiterQueues =
  "(number \<times> Awaiter list) list \<times> (number \<times> Awaiter) list \<times> (number \<times> Awaiter) list"

fun limiterStep :: "limiterEvent \<Rightarrow> limiterQueues \<Rightarrow> limiterQueues" where
  "limiterStep (ConsumeTokensAsync count priority ident) (t, pending, served) =
     (let awaiter = \<lparr>tokenCount = count, awaiterId = ident\<rparr>
      in (addAwaiter priority awaiter t, pending @ [(priority, awaiter)], served))"
| "limiterStep (CancelCall priority awaiter) (t, pending, served) =
     (let (success, t') = removeFirstAwaiter priority (\<lambda>a. a = awaiter) t
      in if success then (t', remove1 (priority, awaiter) pending, served)
         else (t', pending, served))"
| "limiterStep WatcherServes (t, pending, served) =
     (case nextAwaiter t of
        None \<Rightarrow> (t, pending, served)
      | Some (priority, awaiter) \<Rightarrow>
          (snd (removeFirstAwaiter priority (\<lambda>a. a = awaiter) t),
           remove1 (priority, awaiter) pending,
           served @ [(priority, awaiter)]))"

fun limiterRun :: "limiterEvent list \<Rightarrow> limiterQueues \<Rightarrow> limiterQueues" where
  "limiterRun [] q = q"
| "limiterRun (e # es) q = limiterRun es (limiterStep e q)"

text \<open>
  The priorities of a sequence of events are well formed when none is \<open>NaN\<close>. The
  equality of awaiters stands for the identity of their functions.
\<close>

fun validPriorities :: "limiterEvent list \<Rightarrow> bool" where
  "validPriorities [] = True"
| "validPriorities (ConsumeTokensAsync count priority ident # es) =
     (\<not> isNaN priority \<and> validPriorities es)"
| "validPriorities (CancelCall priority awaiter # es) =
     (\<not> isNaN priority \<and> validPriorities es)"
| "validPriorities (WatcherServes # es) = validPriorities es"

text \<open>
  \<open>PrioritizedFifoRateLimiter.restoreTokens\<close> calls \<open>restoreTokens\<close> of its bucket. The
  class \<open>TokenBucket\<close> declares no method of that name, so the call has no body to
  translate and is left out of the model.
\<close>

subsection \<open>The tree of queues and the pending calls\<close>

text \<open>
  The keys of a tree are strictly ascending and none is \<open>NaN\<close>. The queue of a priority
  is empty when the tree has no entry for the priority.
\<close>

definition treeStrict :: "(number \<times> 'v) list \<Rightarrow> bool" where
  "treeStrict t = (sorted_wrt js_lt (map fst t) \<and> (\<forall>k \<in> set (map fst t). \<not> isNaN k))"

definition groupOf :: "(number \<times> 'v list) list \<Rightarrow> number \<Rightarrow> 'v list" where
  "groupOf t p = (case treeGet p t of None \<Rightarrow> [] | Some queue \<Rightarrow> queue)"

text \<open>
  How the tree of the limiter stands for the pending calls: the queue of each priority
  holds the awaiters of the pending calls of that priority, in the order of their
  arrival, and the tree has no empty queue.
\<close>

definition queuesRepresent ::
  "(number \<times> Awaiter list) list \<Rightarrow> (number \<times> Awaiter) list \<Rightarrow> bool" where
  "queuesRepresent t pending =
     (treeStrict t \<and>
      (\<forall>e \<in> set t. snd e \<noteq> []) \<and>
      (\<forall>e \<in> set pending. \<not> isNaN (fst e)) \<and>
      (\<forall>p. \<not> isNaN p \<longrightarrow> groupOf t p = map snd (filter (\<lambda>e. fst e = p) pending)))"

section \<open>Examples\<close>

subsection \<open>Example buckets\<close>

text \<open>
  A bucket of capacity ten that starts with three tokens, a continuous restorer of one
  token per millisecond, and two sequences of calls on them.
\<close>

definition exampleOptions :: TokenBucketOptions where
  "exampleOptions = \<lparr>initialTokens = Fin 3, optMaxTokens = Some (Fin 10)\<rparr>"

definition exampleBucket :: TokenBucket where
  "exampleBucket =
     \<lparr> tokenContent = Fin 3, maxTokens = Fin 10,
       continuousTokenRestorers = [],
       continuousRestoreRatePerMs = Fin 0,
       continuousRestoreLastTimestamp = 0,
       discreteTokenRestorers = [],
       tokenListeners = [],
       checkListenersHandle = None,
       resolved = [] \<rparr>"

definition exampleRestorer :: ContinuousTokenRestorer where
  "exampleRestorer = \<lparr>restorerId = 1, rate = \<lparr>amount = Fin 1, intervalMs = Fin 1\<rparr>\<rparr>"

definition exampleCalls :: "(rat \<times> bucketCall) list" where
  "exampleCalls =
     [(0, AddTokenRestorer (Continuous exampleRestorer)),
      (0, ConsumeTokens (Fin 2)),
      (1, OnceTokensAvailable (Fin 5) 1),
      (2, DiscreteTick (Fin 20)),
      (2, ConsumeTokens (Fin 10)),
      (3, OnceTokensAvailable (Fin 4) 2),
      (7, RecheckTimeout),
      (8, DisconnectRestorers)]"

text \<open>
  The restorer is removed while a waiter for five tokens is pending and after the
  accrual has passed its demand (the recheck timeout due at 2 ms has not run yet).
\<close>

definition removalCalls :: "(rat \<times> bucketCall) list" where
  "removalCalls =
     [(0, AddTokenRestorer (Continuous exampleRestorer)),
      (0, OnceTokensAvailable (Fin 5) 1),
      (3, RemoveTokenRestorer (Continuous exampleRestorer))]"

definition bucketAfterRemoval :: TokenBucket where
  "bucketAfterRemoval =
     \<lparr> tokenContent = Fin 6, maxTokens = Fin 10,
       continuousTokenRestorers = [],
       continuousRestoreRatePerMs = Fin 0,
       continuousRestoreLastTimestamp = 3,
       discreteTokenRestorers = [],
       tokenListeners = [(Fin 5, 1)],
       checkListenersHandle = None,
       resolved = [] \<rparr>"

text \<open>A bucket without restorers, with the given content and two waiters, for four and for seven
  tokens.\<close>

definition bucketWithWaiters :: "number \<Rightarrow> TokenBucket" where
  "bucketWithWaiters tokens =
     exampleBucket\<lparr>tokenContent := tokens, tokenListeners := [(Fin 4, 1), (Fin 7, 2)]\<rparr>"

text \<open>
  A rolling-window bucket: window of 1000 ms with a budget of two tokens, two consumptions
  of one token each in its history, at 0 ms and at 500 ms.
\<close>

definition exampleWindowBucket :: RollingWindowTokenBucket where
  "exampleWindowBucket =
     \<lparr> tokenContent = Fin 3, maxTokens = Fin 5,
       continuousTokenRestorers = [],
       continuousRestoreRatePerMs = Fin 0,
       continuousRestoreLastTimestamp = 500,
       discreteTokenRestorers = [],
       tokenListeners = [],
       checkListenersHandle = None,
       resolved = [],
       historyIntervalMs = Fin 1000,
       maxHistoryTokens = Fin 2,
       history = [(0, Fin 1), (500, Fin 1)],
       cleanUpHandle = Some (Fin 1100) \<rparr>"

text \<open>Calls on a limiter: priorities 1, 10, 1 and 10 in the order of arrival.\<close>

definition exampleEvents :: "limiterEvent list" where
  "exampleEvents =
     [ConsumeTokensAsync (Fin 1) (Fin 1) 1,
      ConsumeTokensAsync (Fin 1) (Fin 10) 2,
      ConsumeTokensAsync (Fin 1) (Fin 1) 3,
      ConsumeTokensAsync (Fin 1) (Fin 10) 4,
      CancelCall (Fin 10) \<lparr>tokenCount = Fin 1, awaiterId = 2\<rparr>]"

text \<open>The tree and the pending calls after these events.\<close>

definition exampleTree :: "(number \<times> Awaiter list) list" where
  "exampleTree =
     [(Fin 1, [\<lparr>tokenCount = Fin 1, awaiterId = 1\<rparr>, \<lparr>tokenCount = Fin 1, awaiterId = 3\<rparr>]),
      (Fin 10, [\<lparr>tokenCount = Fin 1, awaiterId = 4\<rparr>])]"

definition examplePending :: "(number \<times> Awaiter) list" where
  "examplePending =
     [(Fin 1, \<lparr>tokenCount = Fin 1, awaiterId = 1\<rparr>),
      (Fin 1, \<lparr>tokenCount = Fin 1, awaiterId = 3\<rparr>),
      (Fin 10, \<lparr>tokenCount = Fin 1, awaiterId = 4\<rparr>)]"

section \<open>Well-formed buckets\<close>

lemma wellFormedE:
  assumes "wellFormed s"
  obtains t r where "tokenContent s = Fin t" "0 \<le> t" "js_le (Fin t) (maxTokens s)"
    "continuousRestoreRatePerMs s = Fin r" "0 \<le> r"
  using assms unfolding wellFormed_def by (auto split: number.splits)

lemma wellFormed_discrete [simp]:
  "wellFormed (s\<lparr>discreteTokenRestorers := l\<rparr>) = wellFormed s"
  by (simp add: wellFormed_def)

lemma wellFormed_handle [simp]:
  "wellFormed (s\<lparr>checkListenersHandle := h\<rparr>) = wellFormed s"
  by (simp add: wellFormed_def)

lemma wellFormed_listeners [simp]:
  "wellFormed (s\<lparr>tokenListeners := l\<rparr>) = wellFormed s"
  by (simp add: wellFormed_def)

lemma wellFormed_resolved [simp]:
  "wellFormed (s\<lparr>resolved := l\<rparr>) = wellFormed s"
  by (simp add: wellFormed_def)

lemma js_le_Fin_cases:
  "js_le (Fin t) m \<longleftrightarrow> m = PosInf \<or> (\<exists>x. m = Fin x \<and> t \<le> x)"
  by (cases m) auto

lemma addTokens_wf:
  assumes "wellFormed s" "0 \<le> a"
  shows "wellFormed (addTokensToBucket (Fin a) s)"
  using assms
  by (auto simp: wellFormed_def addTokensToBucket_def Let_def js_gt_def js_le_Fin_cases split: number.splits)

lemma restore_wf:
  assumes "wellFormed s" "continuousRestoreLastTimestamp s \<le> now"
  shows "wellFormed (restoreContinuousTokens now s)"
proof -
  from assms(1) obtain t r where *: "tokenContent s = Fin t" "0 \<le> t" "js_le (Fin t) (maxTokens s)"
    "continuousRestoreRatePerMs s = Fin r" "0 \<le> r" by (rule wellFormedE)
  have "0 \<le> r * (now - continuousRestoreLastTimestamp s)" using * assms(2) by simp
  then have "wellFormed (addTokensToBucket (Fin (r * (now - continuousRestoreLastTimestamp s))) s)"
    using assms(1) by (rule addTokens_wf[rotated])
  then show ?thesis
    by (simp add: restoreContinuousTokens_def * js_sub_def wellFormed_def)
qed

lemma restore_idem:
  assumes "wellFormed s" "continuousRestoreLastTimestamp s = now"
  shows "restoreContinuousTokens now s = s"
  using assms
  by (auto simp: wellFormed_def restoreContinuousTokens_def addTokensToBucket_def Let_def js_sub_def js_gt_def js_le_Fin_cases split: number.splits)

lemma restore_fields [simp]:
  "maxTokens (restoreContinuousTokens now s) = maxTokens s"
  "continuousRestoreRatePerMs (restoreContinuousTokens now s) = continuousRestoreRatePerMs s"
  "continuousRestoreLastTimestamp (restoreContinuousTokens now s) = now"
  "tokenListeners (restoreContinuousTokens now s) = tokenListeners s"
  "resolved (restoreContinuousTokens now s) = resolved s"
  "continuousTokenRestorers (restoreContinuousTokens now s) = continuousTokenRestorers s"
  "checkListenersHandle (restoreContinuousTokens now s) = checkListenersHandle s"
  "discreteTokenRestorers (restoreContinuousTokens now s) = discreteTokenRestorers s"
  by (simp_all add: restoreContinuousTokens_def addTokensToBucket_def Let_def)

lemma restore_handle [simp]:
  "restoreContinuousTokens now (s\<lparr>checkListenersHandle := h\<rparr>) =
     (restoreContinuousTokens now s)\<lparr>checkListenersHandle := h\<rparr>"
  by (simp add: restoreContinuousTokens_def addTokensToBucket_def Let_def)

lemma resolveListeners_eq:
  "resolveListeners c ls =
     (map snd (takeWhile (\<lambda>e. js_le (fst e) c) ls), dropWhile (\<lambda>e. js_le (fst e) c) ls)"
  by (induction ls) auto

lemma scheduleStep_empty:
  "tokenListeners s = [] \<Longrightarrow> scheduleStep now s = (False, s\<lparr>checkListenersHandle := None\<rparr>)"
  by (simp add: scheduleStep_def)

lemma wait_unsat:
  assumes "\<not> js_le k (Fin t)" "0 \<le> r"
  shows "\<not> (isFinite (js_div (js_max (Fin 0) (js_sub k (Fin t))) (Fin r)) \<and>
            js_le (js_div (js_max (Fin 0) (js_sub k (Fin t))) (Fin r)) (Fin 0))"
  using assms
  by (cases k) (auto simp: js_max_def js_sub_def signed_inf_def divide_le_0_iff)

lemma scheduleStep_unsat:
  assumes "wellFormed s" "continuousRestoreLastTimestamp s = now"
    "tokenListeners s = (k, cb) # ls" "\<not> js_le k (tokenContent s)"
  shows "\<exists>h. scheduleStep now s = (False, s\<lparr>checkListenersHandle := h\<rparr>)"
proof -
  from assms(1) obtain t r where *: "tokenContent s = Fin t" "0 \<le> t"
    "continuousRestoreRatePerMs s = Fin r" "0 \<le> r" by (rule wellFormedE)
  have idem: "restoreContinuousTokens now s = s" using assms(1,2) by (rule restore_idem)
  from wait_unsat[of k t r] assms(4) *
  show ?thesis
    by (auto simp: scheduleStep_def getWaitTimeForRecheck_def Let_def idem assms(3))
qed

lemma resolvePass_nonempty:
  assumes "tokenListeners s \<noteq> []"
  shows "resolvePass now s =
     (restoreContinuousTokens now s)
       \<lparr>tokenListeners := dropWhile (\<lambda>e. js_le (fst e) (tokenContent (restoreContinuousTokens now s))) (tokenListeners s),
        resolved := resolved s @ map snd (takeWhile (\<lambda>e. js_le (fst e) (tokenContent (restoreContinuousTokens now s))) (tokenListeners s))\<rparr>"
  using assms by (simp add: resolvePass_def getConsumableTokens_def Let_def resolveListeners_eq)

lemma resolvePass_empty:
  "tokenListeners s = [] \<Longrightarrow> resolvePass now s = s"
  by (simp add: resolvePass_def)

lemma checkListeners_returns:
  assumes "wellFormed s" "continuousRestoreLastTimestamp s \<le> now"
  shows "\<exists>h. checkListeners now s = Some ((resolvePass now s)\<lparr>checkListenersHandle := h\<rparr>)"
proof (cases "tokenListeners (resolvePass now s)")
  case Nil
  then show ?thesis
    by (subst checkListeners.simps) (auto simp: scheduleStep_empty)
next
  case (Cons e ls)
  obtain k cb where e: "e = (k, cb)" by (cases e)
  have ne: "tokenListeners s \<noteq> []" using Cons by (auto simp: resolvePass_def)
  let ?s1 = "restoreContinuousTokens now s"
  let ?p = "resolvePass now s"
  have wf: "wellFormed ?p" using assms ne by (simp add: resolvePass_nonempty restore_wf)
  have ts: "continuousRestoreLastTimestamp ?p = now" using ne by (simp add: resolvePass_nonempty)
  have tc: "tokenContent ?p = tokenContent ?s1" using ne by (simp add: resolvePass_nonempty)
  have "dropWhile (\<lambda>e. js_le (fst e) (tokenContent ?s1)) (tokenListeners s) = (k, cb) # ls"
    using Cons e ne by (simp add: resolvePass_nonempty)
  then have "\<not> js_le k (tokenContent ?s1)"
    by (metis (mono_tags, lifting) fst_conv hd_dropWhile list.distinct(1) list.sel(1))
  then have "\<not> js_le k (tokenContent ?p)" by (simp add: tc)
  from scheduleStep_unsat[OF wf ts _ this] Cons e
  obtain h where "scheduleStep now ?p = (False, ?p\<lparr>checkListenersHandle := h\<rparr>)" by auto
  then show ?thesis
    by (subst checkListeners.simps) auto
qed

lemma scheduleStep_shape:
  assumes "tokenListeners s \<noteq> []"
  shows "\<exists>b h. scheduleStep now s = (b, (restoreContinuousTokens now s)\<lparr>checkListenersHandle := h\<rparr>)"
  using assms
  by (auto simp: scheduleStep_def getWaitTimeForRecheck_def Let_def)

lemma resolvePass_wf:
  assumes "wellFormed s" "continuousRestoreLastTimestamp s \<le> now"
  shows "wellFormed (resolvePass now s)"
  using assms by (cases "tokenListeners s = []") (simp_all add: resolvePass_empty resolvePass_nonempty restore_wf)

lemma resolvePass_time:
  assumes "continuousRestoreLastTimestamp s \<le> now"
  shows "continuousRestoreLastTimestamp (resolvePass now s) \<le> now"
  using assms by (cases "tokenListeners s = []") (simp_all add: resolvePass_empty resolvePass_nonempty)

lemma resolvePass_fields [simp]:
  "maxTokens (resolvePass now s) = maxTokens s"
  "continuousRestoreRatePerMs (resolvePass now s) = continuousRestoreRatePerMs s"
  "continuousTokenRestorers (resolvePass now s) = continuousTokenRestorers s"
  "discreteTokenRestorers (resolvePass now s) = discreteTokenRestorers s"
  by (cases "tokenListeners s = []"; simp add: resolvePass_empty resolvePass_nonempty)+

lemma resolvePass_tokenContent:
  "tokenContent (resolvePass now s) =
     (if tokenListeners s = [] then tokenContent s else tokenContent (restoreContinuousTokens now s))"
  by (simp add: resolvePass_empty resolvePass_nonempty)

lemma resolvePass_idem_content:
  assumes "wellFormed s" "continuousRestoreLastTimestamp s = now"
  shows "tokenContent (resolvePass now s) = tokenContent s"
  using assms by (simp add: resolvePass_tokenContent restore_idem)

lemma scheduleCheckListeners_returns:
  assumes "wellFormed s" "continuousRestoreLastTimestamp s \<le> now"
  shows "\<exists>s'. scheduleCheckListeners now s = Some s' \<and> wellFormed s' \<and>
           continuousRestoreLastTimestamp s' \<le> now \<and>
           maxTokens s' = maxTokens s \<and>
           continuousRestoreRatePerMs s' = continuousRestoreRatePerMs s \<and>
           continuousTokenRestorers s' = continuousTokenRestorers s \<and>
           tokenContent s' =
             (if tokenListeners s = [] then tokenContent s
              else tokenContent (restoreContinuousTokens now s))"
proof (cases "tokenListeners s = []")
  case True
  then show ?thesis using assms
    by (simp add: scheduleCheckListeners_def scheduleStep_empty)
next
  case False
  let ?r = "restoreContinuousTokens now s"
  from scheduleStep_shape[OF False, of now] obtain b h where
    st: "scheduleStep now s = (b, ?r\<lparr>checkListenersHandle := h\<rparr>)" by blast
  let ?s1 = "?r\<lparr>checkListenersHandle := h\<rparr>"
  have wf1: "wellFormed ?s1" using assms by (simp add: restore_wf)
  have t1: "continuousRestoreLastTimestamp ?s1 = now" by simp
  show ?thesis
  proof (cases b)
    case False
    then show ?thesis using st wf1 \<open>tokenListeners s \<noteq> []\<close>
      by (simp add: scheduleCheckListeners_def)
  next
    case True
    from checkListeners_returns[OF wf1, of now] obtain h' where
      ch: "checkListeners now ?s1 = Some ((resolvePass now ?s1)\<lparr>checkListenersHandle := h'\<rparr>)"
      by auto
    have "wellFormed (resolvePass now ?s1)" using wf1 by (simp add: resolvePass_wf)
    moreover have "continuousRestoreLastTimestamp (resolvePass now ?s1) \<le> now"
      by (rule resolvePass_time) simp
    moreover have "tokenContent (resolvePass now ?s1) = tokenContent ?r"
      using resolvePass_idem_content[OF wf1 t1] by simp
    ultimately show ?thesis using st True ch \<open>tokenListeners s \<noteq> []\<close>
      by (simp add: scheduleCheckListeners_def)
  qed
qed

lemma checkListeners_wf:
  assumes "wellFormed s" "continuousRestoreLastTimestamp s \<le> now"
  shows "\<exists>s'. checkListeners now s = Some s' \<and> wellFormed s' \<and>
           continuousRestoreLastTimestamp s' \<le> now \<and>
           maxTokens s' = maxTokens s \<and>
           continuousRestoreRatePerMs s' = continuousRestoreRatePerMs s \<and>
           continuousTokenRestorers s' = continuousTokenRestorers s"
  using checkListeners_returns[OF assms] resolvePass_wf[OF assms] resolvePass_time[OF assms(2)]
  by auto

lemma count_cases:
  assumes "\<not> js_lt count (Fin 0)" "js_le count (Fin t)"
  obtains c where "count = Fin c" "0 \<le> c" "c \<le> t"
  using assms by (cases count) auto

lemma wellFormed_timestamp [simp]:
  "wellFormed (s\<lparr>continuousRestoreLastTimestamp := l\<rparr>) = wellFormed s"
  by (simp add: wellFormed_def)

lemma addTokens_fields [simp]:
  "maxTokens (addTokensToBucket c s) = maxTokens s"
  "continuousRestoreRatePerMs (addTokensToBucket c s) = continuousRestoreRatePerMs s"
  "continuousRestoreLastTimestamp (addTokensToBucket c s) = continuousRestoreLastTimestamp s"
  "tokenListeners (addTokensToBucket c s) = tokenListeners s"
  "resolved (addTokensToBucket c s) = resolved s"
  "continuousTokenRestorers (addTokensToBucket c s) = continuousTokenRestorers s"
  by (simp_all add: addTokensToBucket_def Let_def)

lemma aggregate_foldl:
  assumes "\<forall>r \<in> set rs. validRate (rate r)" "0 \<le> a"
  shows "\<exists>x. foldl (\<lambda>amountPerMs r. js_add amountPerMs (js_div (amount (rate r)) (intervalMs (rate r))))
            (Fin a) rs = Fin x \<and> 0 \<le> x"
  using assms
proof (induction rs arbitrary: a)
  case Nil
  then show ?case by simp
next
  case (Cons r rs)
  from Cons.prems(1) obtain am iv where r: "amount (rate r) = Fin am" "0 \<le> am"
    "intervalMs (rate r) = Fin iv" "0 < iv"
    by (auto simp: validRate_def split: number.splits)
  have "0 \<le> a + am / iv" using r Cons.prems(2) by simp
  from Cons.IH[OF _ this] Cons.prems(1) r show ?case by simp
qed

lemma aggregate_valid:
  assumes "\<forall>r \<in> set rs. validRate (rate r)"
  shows "\<exists>x. computeAggregateRatePerMs rs = Fin x \<and> 0 \<le> x"
  unfolding computeAggregateRatePerMs_def using aggregate_foldl[OF assms, of 0] by simp

lemma wellFormed_set_restorers:
  assumes "wellFormed s" "\<forall>r \<in> set rs. validRate (rate r)"
  shows "wellFormed (s\<lparr>continuousTokenRestorers := rs,
           continuousRestoreRatePerMs := computeAggregateRatePerMs rs\<rparr>)"
  using assms aggregate_valid[OF assms(2)]
  by (auto simp: wellFormed_def)

lemma addOrRemove_wf:
  assumes "wellFormed s" "continuousRestoreLastTimestamp s \<le> now" "add \<longrightarrow> validRate (rate r)"
  shows "\<exists>s'. addOrRemoveContinuousRestorer r add now s = Some s' \<and> wellFormed s' \<and>
           continuousRestoreLastTimestamp s' \<le> now \<and> maxTokens s' = maxTokens s"
proof -
  let ?s1 = "restoreContinuousTokens now s"
  let ?rs = "(if add
                then (if hasRestorer (continuousTokenRestorers ?s1) r
                      then continuousTokenRestorers ?s1
                      else continuousTokenRestorers ?s1 @ [r])
                else filter (\<lambda>x. restorerId x \<noteq> restorerId r) (continuousTokenRestorers ?s1))"
  let ?s3 = "?s1\<lparr>continuousTokenRestorers := ?rs,
           continuousRestoreRatePerMs := computeAggregateRatePerMs ?rs\<rparr>"
  have wf1: "wellFormed ?s1" using assms(1,2) by (rule restore_wf)
  have "\<forall>x \<in> set ?rs. validRate (rate x)"
    using wf1 assms(3) by (auto simp: wellFormed_def)
  then have wf3: "wellFormed ?s3" by (rule wellFormed_set_restorers[OF wf1])
  have t3: "continuousRestoreLastTimestamp ?s3 \<le> now" by simp
  from scheduleCheckListeners_returns[OF wf3 t3]
  show ?thesis
    by (auto simp: addOrRemoveContinuousRestorer_def Let_def)
qed

lemma consume_wf:
  assumes "wellFormed s" "continuousRestoreLastTimestamp s = now"
    "\<not> js_lt count (Fin 0)" "js_le count (tokenContent s)"
  shows "wellFormed (s\<lparr>tokenContent := js_sub (tokenContent s) count\<rparr>)"
proof -
  from assms(1) obtain t r where *: "tokenContent s = Fin t" "0 \<le> t" "js_le (Fin t) (maxTokens s)"
    by (rule wellFormedE)
  from assms(3,4) * obtain c where c: "count = Fin c" "0 \<le> c" "c \<le> t"
    by (auto elim: count_cases)
  show ?thesis using assms(1) * c
    by (auto simp: wellFormed_def js_sub_def js_le_Fin_cases)
qed

lemma consumeTokens_wf:
  assumes "wellFormed s" "continuousRestoreLastTimestamp s \<le> now"
  shows "\<exists>r. consumeTokens count now s = Some r \<and>
           (case r of Inl _ \<Rightarrow> True
            | Inr (_, s') \<Rightarrow> wellFormed s' \<and> continuousRestoreLastTimestamp s' \<le> now \<and>
                maxTokens s' = maxTokens s)"
proof (cases "js_lt count (Fin 0)")
  case True
  then show ?thesis by (simp add: consumeTokens_def)
next
  case neg: False
  let ?s1 = "restoreContinuousTokens now s"
  have wf1: "wellFormed ?s1" using assms by (rule restore_wf)
  show ?thesis
  proof (cases "js_le count (tokenContent ?s1)")
    case False
    then show ?thesis using neg wf1
      by (simp add: consumeTokens_def getConsumableTokens_def Let_def)
  next
    case True
    let ?s2 = "?s1\<lparr>tokenContent := js_sub (tokenContent ?s1) count\<rparr>"
    have wf2: "wellFormed ?s2" using wf1 _ neg True by (rule consume_wf) simp
    have t2: "continuousRestoreLastTimestamp ?s2 \<le> now" by simp
    from scheduleCheckListeners_returns[OF wf2 t2] neg True
    show ?thesis
      by (auto simp: consumeTokens_def getConsumableTokens_def Let_def onTokensConsumed_def)
  qed
qed

lemma bucketStep_wf:
  assumes "wellFormed s" "continuousRestoreLastTimestamp s \<le> now" "validCall c"
  shows "\<exists>s'. bucketStep now c s = Some s' \<and> wellFormed s' \<and>
           continuousRestoreLastTimestamp s' \<le> now"
proof (cases c)
  case (ConsumeTokens count)
  from consumeTokens_wf[OF assms(1,2), of count] obtain r where
    r: "consumeTokens count now s = Some r"
       "case r of Inl _ \<Rightarrow> True
        | Inr (_, s') \<Rightarrow> wellFormed s' \<and> continuousRestoreLastTimestamp s' \<le> now \<and>
            maxTokens s' = maxTokens s"
    by blast
  show ?thesis
  proof (cases r)
    case (Inl e)
    then show ?thesis using r(1) assms(1,2) by (simp add: ConsumeTokens)
  next
    case (Inr bs)
    then show ?thesis using r by (cases bs) (simp add: ConsumeTokens)
  qed
next
  case (OnceTokensAvailable count cb)
  let ?s1 = "s\<lparr>tokenListeners := treeInsert count cb (tokenListeners s)\<rparr>"
  have "wellFormed ?s1" "continuousRestoreLastTimestamp ?s1 \<le> now" using assms by simp_all
  from checkListeners_wf[OF this] assms(1,2) show ?thesis
    by (auto simp: OnceTokensAvailable onceTokensAvailable_def)
next
  case ContinuousAccrual
  then show ?thesis using assms restore_wf by simp
next
  case (DiscreteTick count)
  with assms(3) obtain a where a: "count = Fin a" "0 \<le> a" by (auto split: number.splits)
  have wfa: "wellFormed (addTokensToBucket count s)" using assms(1) a by (simp add: addTokens_wf)
  have ta: "continuousRestoreLastTimestamp (addTokensToBucket count s) \<le> now"
    using assms(2) by simp
  from checkListeners_wf[OF wfa ta] show ?thesis
    by (auto simp: DiscreteTick discreteTick_def)
next
  case RecheckTimeout
  then show ?thesis using checkListeners_wf[OF assms(1,2)] by auto
next
  case (AddTokenRestorer r)
  show ?thesis
  proof (cases r)
    case (Continuous cr)
    have "True \<longrightarrow> validRate (rate cr)" using assms(3) AddTokenRestorer Continuous by simp
    from addOrRemove_wf[OF assms(1,2) this] assms(1,2) show ?thesis
      by (auto simp: AddTokenRestorer Continuous addTokenRestorer_def)
  next
    case (Discrete d)
    then show ?thesis using assms(1,2)
      by (auto simp: AddTokenRestorer addTokenRestorer_def)
  qed
next
  case (RemoveTokenRestorer r)
  show ?thesis
  proof (cases r)
    case (Continuous cr)
    have "False \<longrightarrow> validRate (rate cr)" by simp
    from addOrRemove_wf[OF assms(1,2) this] assms(1,2) show ?thesis
      by (auto simp: RemoveTokenRestorer Continuous removeTokenRestorer_def)
  next
    case (Discrete d)
    then show ?thesis using assms(1,2)
      by (auto simp: RemoveTokenRestorer removeTokenRestorer_def)
  qed
next
  case DisconnectRestorers
  let ?s1 = "restoreContinuousTokens now s"
  let ?s2 = "?s1\<lparr>continuousTokenRestorers := [], continuousRestoreRatePerMs := Fin 0\<rparr>"
  have "wellFormed ?s1" using assms(1,2) by (rule restore_wf)
  then have wf2: "wellFormed ?s2" by (simp add: wellFormed_def)
  have t2: "continuousRestoreLastTimestamp ?s2 \<le> now" by simp
  from scheduleCheckListeners_returns[OF wf2 t2] show ?thesis
    by (auto simp: DisconnectRestorers disconnectRestorers_def Let_def)
qed

lemma wellFormed_bounds:
  "wellFormed s \<Longrightarrow> js_le (Fin 0) (tokenContent s) \<and> js_le (tokenContent s) (maxTokens s)"
  by (auto simp: wellFormed_def split: number.splits)

lemma bucketTrace_wf:
  assumes "wellFormed s" "continuousRestoreLastTimestamp s \<le> t0" "validSchedule t0 cs"
  shows "\<exists>ss. bucketTrace s cs = Some ss \<and> (\<forall>x \<in> set ss. wellFormed x)"
  using assms
proof (induction cs arbitrary: s t0)
  case Nil
  then show ?case by simp
next
  case (Cons e cs)
  obtain now c where e: "e = (now, c)" by (cases e)
  from Cons.prems e have v: "t0 \<le> now" "validCall c" "validSchedule now cs" by simp_all
  have "continuousRestoreLastTimestamp s \<le> now" using Cons.prems(2) v(1) by simp
  from bucketStep_wf[OF Cons.prems(1) this v(2)] obtain s' where
    s': "bucketStep now c s = Some s'" "wellFormed s'" "continuousRestoreLastTimestamp s' \<le> now"
    by blast
  from Cons.IH[OF s'(2,3) v(3)] obtain ss where
    "bucketTrace s' cs = Some ss" "\<forall>x \<in> set ss. wellFormed x" by blast
  then show ?case using e s'(1) Cons.prems(1) by simp
qed

lemma TokenBucket_new_wellFormed:
  assumes "TokenBucket_new options = Inr s"
  shows "wellFormed s \<and> continuousRestoreLastTimestamp s = 0"
  using assms
  by (cases "initialTokens options"; cases "optMaxTokens options"; cases "the (optMaxTokens options)")
     (auto simp: TokenBucket_new_def wellFormed_def js_min_def Let_def split: if_splits)


lemma resolvePass_keeps_or_resolves:
  assumes "(k, cb) \<in> set (tokenListeners s)"
  shows "(k, cb) \<in> set (tokenListeners (resolvePass now s)) \<or> cb \<in> set (resolved (resolvePass now s))"
proof -
  have ne: "tokenListeners s \<noteq> []" using assms by auto
  let ?P = "\<lambda>e. js_le (fst e) (tokenContent (restoreContinuousTokens now s))"
  have "(k, cb) \<in> set (takeWhile ?P (tokenListeners s)) \<or> (k, cb) \<in> set (dropWhile ?P (tokenListeners s))"
    using assms by (metis Un_iff set_append takeWhile_dropWhile_id)
  then show ?thesis
    by (auto simp: resolvePass_nonempty[OF ne] intro: rev_image_eqI)
qed

lemma treeInsert_member: "(k, v) \<in> set (treeInsert k v ls)"
  by (induction ls) auto

lemma exampleBucket_wellFormed: "wellFormed exampleBucket"
  by (simp add: wellFormed_def exampleBucket_def)

lemmas bucket_eval =
  addTokenRestorer_def removeTokenRestorer_def addOrRemoveContinuousRestorer_def hasRestorer_def
  computeAggregateRatePerMs_def scheduleCheckListeners_def scheduleStep_def
  getWaitTimeForRecheck_def restoreContinuousTokens_def addTokensToBucket_def resolvePass_def
  getConsumableTokens_def js_gt_def js_sub_def js_max_def js_min_def signed_inf_def
  onceTokensAvailable_def consumeTokens_def onTokensConsumed_def Let_def

section \<open>Construction\<close>

text \<open>
  C10: for options with \<open>0 \<le> maxTokens < initialTokens\<close> and a finite \<open>initialTokens\<close>,
  the constructor does not throw, and the content of the new bucket is
  \<open>min(initialTokens, maxTokens)\<close>, that is \<open>maxTokens\<close>.
\<close>

theorem constructor_clamps_initial_tokens:
  assumes "js_le (Fin 0) m" "js_lt m i" "isFinite i"
  shows "\<exists>s. TokenBucket_new \<lparr>initialTokens = i, optMaxTokens = Some m\<rparr> = Inr s \<and>
           tokenContent s = js_min i m \<and> tokenContent s = m \<and> maxTokens s = m"
  using assms
  by (cases m; cases i) (auto simp: TokenBucket_new_def js_min_def Let_def)

theorem constructor_clamps_initial_tokens_witness:
  "js_le (Fin 0) (Fin 3) \<and> js_lt (Fin 3) (Fin 5) \<and> isFinite (Fin 5) \<and>
   (\<exists>s. TokenBucket_new \<lparr>initialTokens = Fin 5, optMaxTokens = Some (Fin 3)\<rparr> = Inr s \<and>
        tokenContent s = js_min (Fin 5) (Fin 3) \<and> tokenContent s = Fin 3 \<and> maxTokens s = Fin 3)"
  using constructor_clamps_initial_tokens[of "Fin 3" "Fin 5"] by simp

section \<open>The content stays within the capacity\<close>

lemma exampleBucket_new: "TokenBucket_new exampleOptions = Inr exampleBucket"
  by (simp add: TokenBucket_new_def exampleOptions_def exampleBucket_def js_min_def)

text \<open>
  C1: from a bucket the constructor accepted, under any sequence of calls
  (\<open>consumeTokens\<close>, \<open>onceTokensAvailable\<close>, continuous accrual, ticks of discrete
  restorers, the recheck timeout, adding and removing restorers) whose rates and tick
  amounts follow the data model and whose clock readings do not decrease, every call
  returns and in every state reached the content is at least zero and at most
  \<open>maxTokens\<close>.
\<close>

theorem tokenContent_within_bounds:
  assumes "TokenBucket_new options = Inr s" "validSchedule 0 calls"
  shows "\<exists>states. bucketTrace s calls = Some states \<and>
           (\<forall>x \<in> set states. js_le (Fin 0) (tokenContent x) \<and> js_le (tokenContent x) (maxTokens x))"
proof -
  from TokenBucket_new_wellFormed[OF assms(1)]
  have "wellFormed s" "continuousRestoreLastTimestamp s \<le> 0"
    by simp_all
  from bucketTrace_wf[OF this assms(2)] show ?thesis
    using wellFormed_bounds by blast
qed

theorem tokenContent_within_bounds_witness:
  "TokenBucket_new exampleOptions = Inr exampleBucket \<and> validSchedule 0 exampleCalls \<and>
   (\<exists>states. bucketTrace exampleBucket exampleCalls = Some states \<and>
      (\<forall>x \<in> set states. js_le (Fin 0) (tokenContent x) \<and> js_le (tokenContent x) (maxTokens x)))"
proof -
  have v: "validSchedule 0 exampleCalls"
    by (simp add: exampleCalls_def exampleRestorer_def validRate_def)
  from tokenContent_within_bounds[OF exampleBucket_new v] exampleBucket_new v
  show ?thesis by simp
qed

section \<open>Consuming tokens\<close>



section \<open>Waiting for tokens\<close>

text \<open>
  C9, as amended: \<open>onceTokensAvailable(count)\<close> throws \<open>InvalidArgument\<close> for every count
  greater than \<open>maxTokens\<close>, and for every count with \<open>0 \<le> count \<le> maxTokens\<close> it returns
  without throwing and the waiter is registered: after the call it is pending or already
  resolved.
\<close>

theorem onceTokensAvailable_raises_above_capacity:
  assumes "wellFormed s" "continuousRestoreLastTimestamp s \<le> now"
  shows "(js_gt count (maxTokens s) \<longrightarrow>
            onceTokensAvailable count cb now s = Some (Inl InvalidArgument)) \<and>
         (js_le (Fin 0) count \<and> js_le count (maxTokens s) \<longrightarrow>
            (\<exists>s'. onceTokensAvailable count cb now s = Some (Inr s') \<and>
               ((count, cb) \<in> set (tokenListeners s') \<or> cb \<in> set (resolved s'))))"
proof (intro conjI impI)
  assume "js_gt count (maxTokens s)"
  then show "onceTokensAvailable count cb now s = Some (Inl InvalidArgument)"
    by (simp add: onceTokensAvailable_def)
next
  assume "js_le (Fin 0) count \<and> js_le count (maxTokens s)"
  then have le: "\<not> js_gt count (maxTokens s)"
    by (cases count; cases "maxTokens s") (auto simp: js_gt_def)
  let ?s1 = "s\<lparr>tokenListeners := treeInsert count cb (tokenListeners s)\<rparr>"
  have wf1: "wellFormed ?s1" and t1: "continuousRestoreLastTimestamp ?s1 \<le> now"
    using assms by simp_all
  from checkListeners_returns[OF wf1 t1] obtain h where
    h: "checkListeners now ?s1 = Some ((resolvePass now ?s1)\<lparr>checkListenersHandle := h\<rparr>)"
    by blast
  have "(count, cb) \<in> set (tokenListeners ?s1)" by (simp add: treeInsert_member)
  from resolvePass_keeps_or_resolves[OF this, of now] h le
  show "\<exists>s'. onceTokensAvailable count cb now s = Some (Inr s') \<and>
          ((count, cb) \<in> set (tokenListeners s') \<or> cb \<in> set (resolved s'))"
    by (auto simp: onceTokensAvailable_def)
qed

theorem onceTokensAvailable_raises_above_capacity_witness:
  "wellFormed exampleBucket \<and> continuousRestoreLastTimestamp exampleBucket \<le> 0 \<and>
   js_gt (Fin 11) (maxTokens exampleBucket) \<and>
   onceTokensAvailable (Fin 11) 1 0 exampleBucket = Some (Inl InvalidArgument) \<and>
   js_le (Fin 0) (Fin 5) \<and> js_le (Fin 5) (maxTokens exampleBucket) \<and>
   (\<exists>s'. onceTokensAvailable (Fin 5) 1 0 exampleBucket = Some (Inr s') \<and>
      ((Fin 5, 1) \<in> set (tokenListeners s') \<or> 1 \<in> set (resolved s')))"
proof -
  have t: "continuousRestoreLastTimestamp exampleBucket \<le> 0" by (simp add: exampleBucket_def)
  have g: "js_gt (Fin 11) (maxTokens exampleBucket)" "js_le (Fin 0) (Fin 5)"
    "js_le (Fin 5) (maxTokens exampleBucket)"
    by (simp_all add: exampleBucket_def js_gt_def)
  from onceTokensAvailable_raises_above_capacity[OF exampleBucket_wellFormed t, of "Fin 11" 1]
    onceTokensAvailable_raises_above_capacity[OF exampleBucket_wellFormed t, of "Fin 5" 1]
    g exampleBucket_wellFormed t
  show ?thesis by blast
qed

text \<open>
  A negative count and a \<open>NaN\<close> count are not rejected: the waiter for \<open>-1\<close> tokens is
  registered and resolved at once, the waiter for \<open>NaN\<close> tokens is registered and stays
  pending.
\<close>

theorem onceTokensAvailable_accepts_negative_count:
  "onceTokensAvailable (Fin (- 1)) 7 0 exampleBucket = Some (Inr (exampleBucket\<lparr>resolved := [7]\<rparr>)) \<and>
   onceTokensAvailable NaN 7 0 exampleBucket = Some (Inr (exampleBucket\<lparr>tokenListeners := [(NaN, 7)]\<rparr>))"
  by (simp add: exampleBucket_def bucket_eval checkListeners.simps)

section \<open>Waking the waiters\<close>

lemma js_add_zero [simp]: "js_add x (Fin 0) = x"
  by (cases x) auto

lemma js_mul_zero_Fin [simp]: "js_mul (Fin 0) (Fin d) = Fin 0"
  by simp

lemma wait_zero_rate_unsat:
  assumes "js_gt k c"
  shows "js_div (js_max (Fin 0) (js_sub k c)) (Fin 0) = PosInf"
  using assms by (cases k; cases c) (auto simp: js_max_def js_sub_def js_gt_def signed_inf_def)

lemma js_le_trans: "js_le a b \<Longrightarrow> js_le b c \<Longrightarrow> js_le a c"
  by (cases a; cases b; cases c) auto

lemma js_lt_not_le: "js_lt a b \<Longrightarrow> \<not> js_le b a"
  by (cases a; cases b) auto

lemma js_lt_imp_le_refl: "js_lt a b \<Longrightarrow> js_le a a"
  by (cases a; cases b) auto

lemma js_lt_neq: "js_lt a b \<Longrightarrow> a \<noteq> b"
  by (cases a; cases b) auto

lemma ordered_split:
  assumes "treeOrdered ls" "(a, i) \<in> set ls" "(b, j) \<in> set ls" "js_lt a b"
  shows "\<exists>xs ys zs. ls = xs @ (a, i) # ys @ (b, j) # zs"
proof -
  from assms(2) obtain xs rest where ls: "ls = xs @ (a, i) # rest"
    by (auto dest: split_list)
  have "(b, j) \<noteq> (a, i)" using js_lt_neq[OF assms(4)] by auto
  with assms(3) ls have "(b, j) \<in> set xs \<or> (b, j) \<in> set rest" by auto
  then show ?thesis
  proof
    assume "(b, j) \<in> set xs"
    with assms(1) ls have "js_le b a"
      by (auto simp: treeOrdered_def sorted_wrt_append)
    with js_lt_not_le[OF assms(4)] show ?thesis by simp
  next
    assume "(b, j) \<in> set rest"
    then obtain ys zs where "rest = ys @ (b, j) # zs" by (auto dest: split_list)
    with ls show ?thesis by auto
  qed
qed

lemma takeWhile_ordered:
  assumes "treeOrdered (xs @ e # zs)" "js_le (fst e) c"
  shows "takeWhile (\<lambda>e. js_le (fst e) c) (xs @ e # zs) = xs @ e # takeWhile (\<lambda>e. js_le (fst e) c) zs"
proof -
  have "\<forall>x \<in> set xs. js_le (fst x) c"
  proof
    fix x assume "x \<in> set xs"
    then have "js_le (fst x) (fst e)"
      using assms(1) by (simp add: treeOrdered_def sorted_wrt_append)
    then show "js_le (fst x) c" using assms(2) by (rule js_le_trans)
  qed
  then show ?thesis using assms(2) by (simp add: takeWhile_append2)
qed

lemma dropWhile_sorted_wrt_fail:
  assumes "sorted_wrt R ls" "\<And>x y. R x y \<Longrightarrow> P y \<Longrightarrow> P x"
  shows "\<forall>e \<in> set (dropWhile P ls). \<not> P e"
  using assms(1)
proof (induction ls)
  case Nil
  show ?case by simp
next
  case (Cons x ls)
  from Cons.prems have tl: "sorted_wrt R ls" and hd: "\<forall>e \<in> set ls. R x e"
    by simp_all
  show ?case
  proof (cases "P x")
    case True
    then have "dropWhile P (x # ls) = dropWhile P ls" by simp
    then show ?thesis using Cons.IH[OF tl] by (simp only:)
  next
    case False
    then have eq: "dropWhile P (x # ls) = x # ls" by simp
    have "\<not> P e" if "e \<in> set (x # ls)" for e
    proof (cases "e = x")
      case True
      then show ?thesis using False by (simp only: not_False_eq_True)
    next
      case ne: False
      with that have "e \<in> set ls" by simp
      with hd have "R x e" by (rule bspec)
      show ?thesis
      proof
        assume "P e"
        with \<open>R x e\<close> have "P x" by (rule assms(2))
        with False show False by (rule notE)
      qed
    qed
    then show ?thesis unfolding eq by (rule ballI)
  qed
qed

lemma dropWhile_ordered_unsat:
  assumes "treeOrdered ls"
  shows "\<forall>e \<in> set (dropWhile (\<lambda>e. js_le (fst e) c) ls). \<not> js_le (fst e) c"
proof (rule dropWhile_sorted_wrt_fail)
  show "sorted_wrt (\<lambda>x y. js_le (fst x) (fst y)) ls"
    using assms unfolding treeOrdered_def by (elim conjE)
  show "js_le (fst x) c" if "js_le (fst x) (fst y)" "js_le (fst y) c" for x y :: "number \<times> 'a"
    using that by (rule js_le_trans)
qed

lemma distinct_snd_unique:
  assumes "distinct (map snd ls)" "(b, j) \<in> set ls" "(k, j) \<in> set ls"
  shows "k = b"
  using assms by (induction ls) (auto simp: image_iff)

text \<open>
  C2: for two pending waiters with demands \<open>a < b\<close>, a check pass that finds exactly \<open>a\<close>
  consumable tokens resolves the \<open>a\<close>-waiter and not the \<open>b\<close>-waiter, and a check pass
  that finds at least \<open>b\<close> resolves both, the \<open>a\<close>-waiter first. Each pass resolves the
  waiters in the order of the tree, which is ascending by demand, and stops at the first
  demand that is not satisfied: the waiters left are all unsatisfied.
\<close>

theorem waiters_resolve_in_ascending_order:
  assumes "wellFormed s" "continuousRestoreLastTimestamp s \<le> now"
    and "treeOrdered (tokenListeners s)" "distinct (map snd (tokenListeners s))"
    and "(a, i) \<in> set (tokenListeners s)" "(b, j) \<in> set (tokenListeners s)" "js_lt a b"
    and "c = tokenContent (restoreContinuousTokens now s)"
  shows "\<exists>s' new. checkListeners now s = Some s' \<and> resolved s' = resolved s @ new \<and>
      new = map snd (takeWhile (\<lambda>e. js_le (fst e) c) (tokenListeners s)) \<and>
      tokenListeners s' = dropWhile (\<lambda>e. js_le (fst e) c) (tokenListeners s) \<and>
      (\<forall>e \<in> set (tokenListeners s'). \<not> js_le (fst e) c) \<and>
      (c = a \<longrightarrow> i \<in> set new \<and> j \<notin> set new \<and> (b, j) \<in> set (tokenListeners s')) \<and>
      (js_le b c \<longrightarrow> (\<exists>xs ys zs. new = xs @ i # ys @ j # zs))"
proof -
  let ?L = "tokenListeners s"
  let ?P = "\<lambda>e. js_le (fst e) c"
  let ?new = "map snd (takeWhile ?P ?L)"
  have ne: "?L \<noteq> []" using assms(5) by auto
  from checkListeners_returns[OF assms(1,2)] obtain h where
    h: "checkListeners now s = Some ((resolvePass now s)\<lparr>checkListenersHandle := h\<rparr>)" by blast
  let ?s' = "(resolvePass now s)\<lparr>checkListenersHandle := h\<rparr>"
  have r: "resolved ?s' = resolved s @ ?new" and l: "tokenListeners ?s' = dropWhile ?P ?L"
    using assms(8) by (simp_all add: resolvePass_nonempty[OF ne])
  from ordered_split[OF assms(3,5,6,7)] obtain xs ys zs where
    sp: "?L = xs @ (a, i) # ys @ (b, j) # zs" by blast
  have unsat: "\<forall>e \<in> set (tokenListeners ?s'). \<not> js_le (fst e) c"
    unfolding l using assms(3) by (rule dropWhile_ordered_unsat)
  have exact: "c = a \<longrightarrow> i \<in> set ?new \<and> j \<notin> set ?new \<and> (b, j) \<in> set (tokenListeners ?s')"
  proof
    assume ca: "c = a"
    have "js_le (fst (a, i)) c" using ca js_lt_imp_le_refl[OF assms(7)] by simp
    from takeWhile_ordered[OF assms(3)[unfolded sp] this]
    have "takeWhile ?P ?L = xs @ (a, i) # takeWhile ?P (ys @ (b, j) # zs)" using sp by simp
    then have i: "i \<in> set ?new" by simp
    have nb: "\<not> js_le b c" using ca js_lt_not_le[OF assms(7)] by simp
    have j: "j \<notin> set ?new"
    proof
      assume "j \<in> set ?new"
      then obtain k where k: "(k, j) \<in> set (takeWhile ?P ?L)" by auto
      then have "(k, j) \<in> set ?L" by (auto dest: set_takeWhileD)
      with assms(4,6) have "k = b" by (rule distinct_snd_unique)
      with k have "js_le b c" by (auto dest: set_takeWhileD)
      with nb show False by simp
    qed
    have "(b, j) \<notin> set (takeWhile ?P ?L)" using nb by (auto dest: set_takeWhileD)
    moreover have "(b, j) \<in> set (takeWhile ?P ?L) \<union> set (dropWhile ?P ?L)"
      using assms(6) by (metis set_append takeWhile_dropWhile_id)
    ultimately have "(b, j) \<in> set (dropWhile ?P ?L)" by blast
    with i j l show "i \<in> set ?new \<and> j \<notin> set ?new \<and> (b, j) \<in> set (tokenListeners ?s')" by simp
  qed
  have both: "js_le b c \<longrightarrow> (\<exists>xs ys zs. ?new = xs @ i # ys @ j # zs)"
  proof
    assume "js_le b c"
    then have "js_le (fst (b, j)) c" by simp
    from takeWhile_ordered[of "xs @ (a, i) # ys" "(b, j)" zs c, OF _ this] assms(3) sp
    have "takeWhile ?P ?L = (xs @ (a, i) # ys) @ (b, j) # takeWhile ?P zs" by simp
    then have "?new = map snd xs @ i # map snd ys @ j # map snd (takeWhile ?P zs)" by simp
    then show "\<exists>xs ys zs. ?new = xs @ i # ys @ j # zs" by blast
  qed
  show ?thesis
  proof (intro exI conjI)
    show "checkListeners now s = Some ?s'" by (rule h)
    show "resolved ?s' = resolved s @ ?new" by (rule r)
    show "?new = map snd (takeWhile ?P ?L)" by (rule refl)
    show "tokenListeners ?s' = dropWhile ?P ?L" by (rule l)
    show "\<forall>e \<in> set (tokenListeners ?s'). \<not> js_le (fst e) c" by (rule unsat)
    show "c = a \<longrightarrow> i \<in> set ?new \<and> j \<notin> set ?new \<and> (b, j) \<in> set (tokenListeners ?s')"
      by (rule exact)
    show "js_le b c \<longrightarrow> (\<exists>xs ys zs. ?new = xs @ i # ys @ j # zs)" by (rule both)
  qed
qed

theorem waiters_resolve_in_ascending_order_witness:
  "wellFormed (bucketWithWaiters (Fin 4)) \<and>
   continuousRestoreLastTimestamp (bucketWithWaiters (Fin 4)) \<le> 0 \<and>
   treeOrdered (tokenListeners (bucketWithWaiters (Fin 4))) \<and>
   distinct (map snd (tokenListeners (bucketWithWaiters (Fin 4)))) \<and>
   (Fin 4, 1) \<in> set (tokenListeners (bucketWithWaiters (Fin 4))) \<and>
   (Fin 7, 2) \<in> set (tokenListeners (bucketWithWaiters (Fin 4))) \<and>
   js_lt (Fin 4) (Fin 7) \<and>
   Fin 4 = tokenContent (restoreContinuousTokens 0 (bucketWithWaiters (Fin 4))) \<and>
   (\<exists>s' new. checkListeners 0 (bucketWithWaiters (Fin 4)) = Some s' \<and>
      resolved s' = resolved (bucketWithWaiters (Fin 4)) @ new \<and>
      1 \<in> set new \<and> 2 \<notin> set new \<and> (Fin 7, 2) \<in> set (tokenListeners s'))"
proof -
  let ?s = "bucketWithWaiters (Fin 4)"
  have wf: "wellFormed ?s"
    by (simp add: bucketWithWaiters_def exampleBucket_def wellFormed_def)
  have t: "continuousRestoreLastTimestamp ?s \<le> 0"
    by (simp add: bucketWithWaiters_def exampleBucket_def)
  have ord: "treeOrdered (tokenListeners ?s)"
    by (simp add: bucketWithWaiters_def exampleBucket_def treeOrdered_def)
  have dist: "distinct (map snd (tokenListeners ?s))"
    by (simp add: bucketWithWaiters_def exampleBucket_def)
  have ma: "(Fin 4, 1) \<in> set (tokenListeners ?s)" and mb: "(Fin 7, 2) \<in> set (tokenListeners ?s)"
    by (simp_all add: bucketWithWaiters_def exampleBucket_def)
  have lt: "js_lt (Fin 4) (Fin 7)" by simp
  have c: "Fin 4 = tokenContent (restoreContinuousTokens 0 ?s)"
    by (simp add: bucketWithWaiters_def exampleBucket_def bucket_eval)
  from waiters_resolve_in_ascending_order[OF wf t ord dist ma mb lt c]
  have "\<exists>s' new. checkListeners 0 ?s = Some s' \<and> resolved s' = resolved ?s @ new \<and>
      1 \<in> set new \<and> 2 \<notin> set new \<and> (Fin 7, 2) \<in> set (tokenListeners s')"
    by blast
  with wf t ord dist ma mb lt c show ?thesis by blast
qed

text \<open>
  C7, as amended: in a state with a pending waiter, an aggregate continuous rate of zero,
  and a smallest demand that exceeds the content of the bucket, the recheck wait time is
  infinite and \<open>_scheduleCheckListeners\<close> arms no timer and resolves no waiter.
\<close>

theorem zero_rate_arms_no_timer:
  assumes "tokenListeners s = (k, cb) # ls" "continuousRestoreRatePerMs s = Fin 0"
    "js_gt k (tokenContent (restoreContinuousTokens now s))"
  shows "fst (getWaitTimeForRecheck now s) = PosInf \<and>
         (\<exists>s'. scheduleCheckListeners now s = Some s' \<and> checkListenersHandle s' = None \<and>
            tokenListeners s' = tokenListeners s \<and> resolved s' = resolved s)"
proof -
  have w: "fst (getWaitTimeForRecheck now s) = PosInf"
    using assms wait_zero_rate_unsat[OF assms(3)]
    by (simp add: getWaitTimeForRecheck_def Let_def)
  have "fst (getWaitTimeForRecheck now (s\<lparr>checkListenersHandle := None\<rparr>)) = PosInf"
    using assms wait_zero_rate_unsat[OF assms(3)]
    by (simp add: getWaitTimeForRecheck_def Let_def)
  moreover have "snd (getWaitTimeForRecheck now (s\<lparr>checkListenersHandle := None\<rparr>)) =
      (restoreContinuousTokens now s)\<lparr>checkListenersHandle := None\<rparr>"
    by (simp add: getWaitTimeForRecheck_def Let_def)
  ultimately have "scheduleStep now s = (False, (restoreContinuousTokens now s)\<lparr>checkListenersHandle := None\<rparr>)"
    using assms(1) by (simp add: scheduleStep_def Let_def split_beta)
  then show ?thesis using w by (simp add: scheduleCheckListeners_def)
qed

theorem zero_rate_arms_no_timer_witness:
  "tokenListeners (bucketWithWaiters (Fin 3)) = (Fin 4, 1) # [(Fin 7, 2)] \<and>
   continuousRestoreRatePerMs (bucketWithWaiters (Fin 3)) = Fin 0 \<and>
   js_gt (Fin 4) (tokenContent (restoreContinuousTokens 5 (bucketWithWaiters (Fin 3)))) \<and>
   fst (getWaitTimeForRecheck 5 (bucketWithWaiters (Fin 3))) = PosInf \<and>
   (\<exists>s'. scheduleCheckListeners 5 (bucketWithWaiters (Fin 3)) = Some s' \<and>
      checkListenersHandle s' = None \<and>
      tokenListeners s' = tokenListeners (bucketWithWaiters (Fin 3)) \<and>
      resolved s' = resolved (bucketWithWaiters (Fin 3)))"
proof -
  let ?s = "bucketWithWaiters (Fin 3)"
  have l: "tokenListeners ?s = (Fin 4, 1) # [(Fin 7, 2)]"
    by (simp add: bucketWithWaiters_def exampleBucket_def)
  have r: "continuousRestoreRatePerMs ?s = Fin 0"
    by (simp add: bucketWithWaiters_def exampleBucket_def)
  have g: "js_gt (Fin 4) (tokenContent (restoreContinuousTokens 5 ?s))"
    by (simp add: bucketWithWaiters_def exampleBucket_def bucket_eval)
  from zero_rate_arms_no_timer[OF l r g] l r g show ?thesis by blast
qed

text \<open>
  Without the condition on the smallest demand the wait time need not be infinite.
  Removing the only continuous restorer after the accrual has passed the demand of a
  pending waiter leaves the waiter pending with six tokens for its demand of five and a
  rate of zero; the wait time computed there is \<open>0 / 0\<close>, which is \<open>NaN\<close>.
\<close>

theorem zero_rate_wait_time_not_infinite:
  "map_option last (bucketTrace exampleBucket removalCalls) = Some bucketAfterRemoval \<and>
   tokenListeners bucketAfterRemoval = [(Fin 5, 1)] \<and>
   continuousRestoreRatePerMs bucketAfterRemoval = Fin 0 \<and>
   fst (getWaitTimeForRecheck 3 bucketAfterRemoval) = NaN \<and>
   fst (getWaitTimeForRecheck 3 bucketAfterRemoval) \<noteq> PosInf"
  by (simp add: exampleBucket_def exampleRestorer_def removalCalls_def bucketAfterRemoval_def
      bucket_eval checkListeners.simps)

section \<open>The rolling window\<close>

lemma js_min_commute: "js_min a b = js_min b a"
  by (cases a; cases b) (auto simp: js_min_def)

lemma olderThanWindow_code:
  "olderThanWindow now interval key = js_lt (Fin key) (js_sub (Fin now) interval)"
  by (cases interval) (auto simp: olderThanWindow_def js_gt_def js_sub_def)

lemma olderThanWindow_mono:
  "k \<le> k' \<Longrightarrow> olderThanWindow now interval k' \<Longrightarrow> olderThanWindow now interval k"
  by (cases interval) (auto simp: olderThanWindow_def js_gt_def js_sub_def)

lemma removeExpired_dropWhile:
  "removeExpired ex h = dropWhile (\<lambda>e. js_lt (Fin (fst e)) ex) h"
  by (induction h) auto

lemma dropWhile_filter_sorted:
  assumes "sorted (map fst h)" "\<And>k k'. k \<le> k' \<Longrightarrow> Q k' \<Longrightarrow> Q k"
  shows "dropWhile (\<lambda>e. Q (fst e)) h = filter (\<lambda>e. \<not> Q (fst e)) h"
  using assms(1)
proof (induction h)
  case Nil
  show ?case by simp
next
  case (Cons x h)
  from Cons.prems have tl: "sorted (map fst h)" and hd: "\<forall>e \<in> set h. fst x \<le> fst e"
    by simp_all
  show ?case
  proof (cases "Q (fst x)")
    case True
    then show ?thesis using Cons.IH[OF tl] by simp
  next
    case False
    have "\<not> Q (fst e)" if "e \<in> set h" for e
    proof
      assume q: "Q (fst e)"
      from hd that have "fst x \<le> fst e" by (rule bspec)
      then have "Q (fst x)" using q by (rule assms(2))
      with False show False by (rule notE)
    qed
    then have "filter (\<lambda>e. \<not> Q (fst e)) h = h" by (simp add: filter_id_conv)
    then show ?thesis using False by simp
  qed
qed

lemma removeExpired_filter:
  assumes "sorted (map fst h)"
  shows "removeExpired (js_sub (Fin now) interval) h =
           filter (\<lambda>e. \<not> olderThanWindow now interval (fst e)) h"
proof -
  have "removeExpired (js_sub (Fin now) interval) h =
          dropWhile (\<lambda>e. olderThanWindow now interval (fst e)) h"
    by (simp add: removeExpired_dropWhile olderThanWindow_code)
  also have "\<dots> = filter (\<lambda>e. \<not> olderThanWindow now interval (fst e)) h"
    using assms olderThanWindow_mono by (rule dropWhile_filter_sorted)
  finally show ?thesis .
qed

lemma history_total:
  "foldl (\<lambda>total (key, v). js_add total v) a h = foldl js_add a (map snd h)"
  by (induction h arbitrary: a) auto

lemma getConsumableTokens_history [simp]:
  "fst (getConsumableTokens now (s\<lparr>history := h\<rparr>)) = fst (getConsumableTokens now s)"
  by (simp add: getConsumableTokens_def restoreContinuousTokens_def addTokensToBucket_def Let_def)

text \<open>
  C5: the consumable tokens of a rolling-window bucket are the minimum of the consumable
  tokens of the base bucket and \<open>maxHistoryTokens\<close> minus the current window spend, the
  sum of the history entries that are not older than \<open>historyIntervalMs\<close>. The history is
  an ordered tree, so its entries are in key order.
\<close>

theorem rolling_window_consumable_tokens:
  assumes "sorted (map fst (history s))"
  shows "fst (rollingWindowGetConsumableTokens now s) =
           js_min (fst (getConsumableTokens now s))
                  (js_sub (maxHistoryTokens s) (currentWindowSpend now s))"
proof -
  have spent: "fst (countAndCleanupHistoricTokens now s) = currentWindowSpend now s"
    using removeExpired_filter[OF assms, of now "historyIntervalMs s"]
    by (simp add: countAndCleanupHistoricTokens_def cleanupHistoricTokens_def Let_def
        currentWindowSpend_def history_total)
  have st: "snd (countAndCleanupHistoricTokens now s) =
      s\<lparr>history := removeExpired (js_sub (Fin now) (historyIntervalMs s)) (history s)\<rparr>"
    by (simp add: countAndCleanupHistoricTokens_def cleanupHistoricTokens_def Let_def)
  have "fst (rollingWindowGetConsumableTokens now s) =
      js_min (js_sub (maxHistoryTokens s) (fst (countAndCleanupHistoricTokens now s)))
        (fst (getConsumableTokens now (snd (countAndCleanupHistoricTokens now s))))"
    by (simp add: rollingWindowGetConsumableTokens_def Let_def split_beta)
  then show ?thesis
    by (simp add: spent st js_min_commute)
qed


theorem rolling_window_consumable_tokens_witness:
  "sorted (map fst (history exampleWindowBucket)) \<and>
   currentWindowSpend 1200 exampleWindowBucket = Fin 1 \<and>
   fst (getConsumableTokens 1200 exampleWindowBucket) = Fin 3 \<and>
   fst (rollingWindowGetConsumableTokens 1200 exampleWindowBucket) = Fin 1"
proof -
  have s: "sorted (map fst (history exampleWindowBucket))"
    by (simp add: exampleWindowBucket_def)
  have w: "currentWindowSpend 1200 exampleWindowBucket = Fin 1"
    by (simp add: exampleWindowBucket_def currentWindowSpend_def olderThanWindow_def js_gt_def js_sub_def)
  have b: "fst (getConsumableTokens 1200 exampleWindowBucket) = Fin 3"
    by (simp add: exampleWindowBucket_def bucket_eval)
  from rolling_window_consumable_tokens[OF s, of 1200] s w b show ?thesis
    by (simp add: exampleWindowBucket_def js_min_def js_sub_def)
qed

section \<open>The queues of the rate limiter\<close>

subsection \<open>The order of the keys\<close>

lemma js_lt_trans: "js_lt a b \<Longrightarrow> js_lt b c \<Longrightarrow> js_lt a c"
  by (cases a; cases b; cases c) auto

lemma js_lt_irrefl [simp]: "\<not> js_lt a a"
  by (cases a) auto

lemma js_lt_total: "\<not> isNaN a \<Longrightarrow> \<not> isNaN b \<Longrightarrow> js_lt a b \<or> a = b \<or> js_lt b a"
  by (cases a; cases b) auto

lemma js_lt_imp_le: "js_lt a b \<Longrightarrow> js_le a b"
  by (cases a; cases b) auto

lemma js_le_refl: "\<not> isNaN a \<Longrightarrow> js_le a a"
  by (cases a) auto

lemma keyEq_iff: "\<not> isNaN a \<Longrightarrow> \<not> isNaN b \<Longrightarrow> keyEq a b = (a = b)"
  by (cases a; cases b) (auto simp: keyEq_def js_gt_def)

lemma treeStrict_Nil [simp]: "treeStrict []"
  by (simp add: treeStrict_def)

lemma treeStrict_Cons:
  "treeStrict ((k, v) # t) =
     (\<not> isNaN k \<and> (\<forall>k' \<in> fst ` set t. js_lt k k') \<and> treeStrict t)"
  unfolding treeStrict_def by auto

lemma treeStrict_keys: "treeStrict t \<Longrightarrow> (k, v) \<in> set t \<Longrightarrow> \<not> isNaN k"
  unfolding treeStrict_def by force

lemma treeGet_None_iff:
  assumes "treeStrict t" "\<not> isNaN p"
  shows "(treeGet p t = None) = (p \<notin> fst ` set t)"
  using assms
proof (induction t)
  case Nil
  show ?case by simp
next
  case (Cons e t)
  obtain k v where e: "e = (k, v)" by (cases e)
  from Cons.prems(1) have k: "\<not> isNaN k" and tl: "treeStrict t"
    unfolding e treeStrict_Cons by simp_all
  show ?case
    using Cons.IH[OF tl Cons.prems(2)] keyEq_iff[OF Cons.prems(2) k]
    by (auto simp: e)
qed

lemma treeGet_member:
  assumes "treeStrict t" "(p, v) \<in> set t"
  shows "treeGet p t = Some v"
  using assms
proof (induction t)
  case Nil
  then show ?case by simp
next
  case (Cons e t)
  obtain k w where e: "e = (k, w)" by (cases e)
  from Cons.prems(1) have k: "\<not> isNaN k" and tl: "treeStrict t"
    and lt: "\<forall>k' \<in> fst ` set t. js_lt k k'"
    unfolding e treeStrict_Cons by simp_all
  show ?case
  proof (cases "(p, v) = (k, w)")
    case True
    then show ?thesis using keyEq_iff[OF k k] by (simp add: e)
  next
    case False
    with Cons.prems(2) have mem: "(p, v) \<in> set t" by (auto simp: e)
    then have "js_lt k p" using lt by force
    then have "p \<noteq> k" by auto
    moreover have "\<not> isNaN p" using tl mem by (rule treeStrict_keys)
    ultimately have "\<not> keyEq p k" using keyEq_iff k by simp
    then show ?thesis using Cons.IH[OF tl mem] by (simp add: e)
  qed
qed

lemma treeGet_Some_member:
  assumes "treeStrict t" "\<not> isNaN p" "treeGet p t = Some v"
  shows "(p, v) \<in> set t"
  using assms
proof (induction t)
  case Nil
  then show ?case by simp
next
  case (Cons e t)
  obtain k w where e: "e = (k, w)" by (cases e)
  from Cons.prems(1) have k: "\<not> isNaN k" and tl: "treeStrict t"
    unfolding e treeStrict_Cons by simp_all
  show ?case
  proof (cases "keyEq p k")
    case True
    then have "p = k" using keyEq_iff[OF Cons.prems(2) k] by simp
    then show ?thesis using Cons.prems(3) True by (simp add: e)
  next
    case False
    then have "treeGet p t = Some v" using Cons.prems(3) by (simp add: e)
    from Cons.IH[OF tl Cons.prems(2) this] show ?thesis by simp
  qed
qed

lemma treeGet_eq_iff:
  assumes "treeStrict t" "\<not> isNaN p"
  shows "(treeGet p t = Some v) = ((p, v) \<in> set t)"
  using treeGet_member[OF assms(1)] treeGet_Some_member[OF assms] by blast

lemma treeSet_keys [simp]: "map fst (treeSet p v t) = map fst t"
  by (induction t) auto

lemma treeStrict_treeSet [simp]: "treeStrict (treeSet p v t) = treeStrict t"
  by (simp add: treeStrict_def)

lemma treeSet_member: "e \<in> set (treeSet p v t) \<Longrightarrow> e \<in> set t \<or> snd e = v"
  by (induction t) (auto split: if_splits)

lemma treeGet_treeSet:
  assumes "treeStrict t" "\<not> isNaN p" "\<not> isNaN p'"
  shows "treeGet p' (treeSet p v t) =
           (if p' = p \<and> treeGet p t \<noteq> None then Some v else treeGet p' t)"
  using assms(1)
proof (induction t)
  case Nil
  show ?case by simp
next
  case (Cons e t)
  obtain k w where e: "e = (k, w)" by (cases e)
  from Cons.prems have k: "\<not> isNaN k" and tl: "treeStrict t"
    unfolding e treeStrict_Cons by simp_all
  show ?case
    using Cons.IH[OF tl] keyEq_iff[OF assms(2) k] keyEq_iff[OF assms(3) k]
    by (auto simp: e)
qed

lemma treeRemove_subset: "set (treeRemove p t) \<subseteq> set t"
  by (induction t) (auto split: if_splits)

lemma treeStrict_treeRemove:
  assumes "treeStrict t"
  shows "treeStrict (treeRemove p t)"
  using assms
proof (induction t)
  case Nil
  show ?case by simp
next
  case (Cons e t)
  obtain k w where e: "e = (k, w)" by (cases e)
  from Cons.prems have k: "\<not> isNaN k" and tl: "treeStrict t"
    and lt: "\<forall>k' \<in> fst ` set t. js_lt k k'"
    unfolding e treeStrict_Cons by simp_all
  have "\<forall>k' \<in> fst ` set (treeRemove p t). js_lt k k'"
    using lt treeRemove_subset[of p t] by blast
  then show ?case using k tl Cons.IH[OF tl]
    by (simp add: e treeStrict_Cons)
qed

lemma treeGet_treeRemove:
  assumes "treeStrict t" "\<not> isNaN p" "\<not> isNaN p'"
  shows "treeGet p' (treeRemove p t) = (if p' = p then None else treeGet p' t)"
  using assms(1)
proof (induction t)
  case Nil
  show ?case by simp
next
  case (Cons e t)
  obtain k w where e: "e = (k, w)" by (cases e)
  from Cons.prems have k: "\<not> isNaN k" and tl: "treeStrict t"
    and lt: "\<forall>k' \<in> fst ` set t. js_lt k k'"
    unfolding e treeStrict_Cons by simp_all
  have "k \<notin> fst ` set t" using lt js_lt_irrefl by blast
  then have none: "treeGet k t = None" using treeGet_None_iff[OF tl k] by simp
  show ?case
    using Cons.IH[OF tl] keyEq_iff[OF assms(2) k] keyEq_iff[OF assms(3) k] none
    by (auto simp: e)
qed

lemma treeInsert_set: "set (treeInsert p v t) = insert (p, v) (set t)"
  by (induction t) (auto split: if_splits)

lemma treeStrict_treeInsert:
  assumes "treeStrict t" "\<not> isNaN p" "p \<notin> fst ` set t"
  shows "treeStrict (treeInsert p v t)"
  using assms(1,3)
proof (induction t)
  case Nil
  show ?case using assms(2) by (simp add: treeStrict_Cons)
next
  case (Cons e t)
  obtain k w where e: "e = (k, w)" by (cases e)
  from Cons.prems(1) have k: "\<not> isNaN k" and tl: "treeStrict t"
    and lt: "\<forall>k' \<in> fst ` set t. js_lt k k'"
    unfolding e treeStrict_Cons by simp_all
  from Cons.prems(2) have pk: "p \<noteq> k" and pt: "p \<notin> fst ` set t" by (auto simp: e)
  show ?case
  proof (cases "js_gt p k")
    case True
    then have "js_lt k p" by (simp add: js_gt_def)
    then have "\<forall>k' \<in> fst ` set (treeInsert p v t). js_lt k k'"
      using lt by (auto simp: treeInsert_set)
    then show ?thesis using True k Cons.IH[OF tl pt]
      by (simp add: e treeStrict_Cons)
  next
    case False
    then have "\<not> js_lt k p" by (simp add: js_gt_def)
    with js_lt_total[OF assms(2) k] pk have pltk: "js_lt p k" by blast
    have "\<forall>k' \<in> fst ` set ((k, w) # t). js_lt p k'"
    proof
      fix k' assume "k' \<in> fst ` set ((k, w) # t)"
      then have "k' = k \<or> k' \<in> fst ` set t" by auto
      then show "js_lt p k'"
      proof
        assume "k' = k"
        then show ?thesis using pltk by simp
      next
        assume "k' \<in> fst ` set t"
        with lt have "js_lt k k'" by (rule bspec)
        with pltk show ?thesis by (rule js_lt_trans)
      qed
    qed
    then show ?thesis using False assms(2) Cons.prems(1)
      unfolding e by (simp add: treeStrict_Cons[of p])
  qed
qed

lemma treeGet_treeInsert:
  assumes "treeStrict t" "\<not> isNaN p" "\<not> isNaN p'" "p \<notin> fst ` set t"
  shows "treeGet p' (treeInsert p v t) = (if p' = p then Some v else treeGet p' t)"
proof -
  have st: "treeStrict (treeInsert p v t)" using assms(1,2,4) by (rule treeStrict_treeInsert)
  show ?thesis
  proof (cases "p' = p")
    case True
    have "(p, v) \<in> set (treeInsert p v t)" by (simp add: treeInsert_set)
    from treeGet_member[OF st this] True show ?thesis by simp
  next
    case False
    show ?thesis
    proof (cases "treeGet p' t")
      case None
      then have "p' \<notin> fst ` set t" using treeGet_None_iff[OF assms(1,3)] by simp
      then have "p' \<notin> fst ` set (treeInsert p v t)" using False by (simp add: treeInsert_set)
      then show ?thesis using None False treeGet_None_iff[OF st assms(3)] by simp
    next
      case (Some q)
      then have "(p', q) \<in> set t" using treeGet_eq_iff[OF assms(1,3)] by simp
      then have "(p', q) \<in> set (treeInsert p v t)" by (simp add: treeInsert_set)
      from treeGet_member[OF st this] Some False show ?thesis by simp
    qed
  qed
qed

lemma removeOne_eq: "removeOne (\<lambda>x. x = a) q = (a \<in> set q, remove1 a q)"
  by (induction q) auto

lemma filter_remove1_same:
  "map snd (filter (\<lambda>e. fst e = p) (remove1 (p, a) pending)) =
     remove1 a (map snd (filter (\<lambda>e. fst e = p) pending))"
  by (induction pending) auto

lemma filter_remove1_other:
  "p' \<noteq> p \<Longrightarrow> filter (\<lambda>e. fst e = p') (remove1 (p, a) pending) =
     filter (\<lambda>e. fst e = p') pending"
  by (induction pending) auto

lemma treeStrict_last:
  assumes "treeStrict t" "(k, v) \<in> set t"
  shows "k = fst (last t) \<or> js_lt k (fst (last t))"
  using assms
proof (induction t)
  case Nil
  then show ?case by simp
next
  case (Cons e t)
  obtain k0 w where e: "e = (k0, w)" by (cases e)
  from Cons.prems(1) have tl: "treeStrict t"
    and lt: "\<forall>k' \<in> fst ` set t. js_lt k0 k'"
    unfolding e treeStrict_Cons by simp_all
  show ?case
  proof (cases "t = []")
    case True
    then show ?thesis using Cons.prems(2) by (simp add: e)
  next
    case False
    then have l: "last (e # t) = last t" by simp
    have lm: "fst (last t) \<in> fst ` set t" using False by simp
    show ?thesis
    proof (cases "(k, v) = e")
      case True
      then have "k = k0" by (simp add: e)
      then show ?thesis using lt lm l by auto
    next
      case ne: False
      with Cons.prems(2) have "(k, v) \<in> set t" by auto
      from Cons.IH[OF tl this] l show ?thesis by simp
    qed
  qed
qed

text \<open>Registering a waiter whose demand is not \<open>NaN\<close> keeps the waiters in key order.\<close>

lemma js_le_total: "\<not> isNaN a \<Longrightarrow> \<not> isNaN b \<Longrightarrow> js_lt b a \<or> js_le a b"
  by (cases a; cases b) auto

lemma treeOrdered_Cons:
  "treeOrdered (e # t) =
     (\<not> isNaN (fst e) \<and> (\<forall>x \<in> set t. js_le (fst e) (fst x)) \<and> treeOrdered t)"
  unfolding treeOrdered_def by auto

lemma treeInsert_ordered:
  assumes "treeOrdered t" "\<not> isNaN k"
  shows "treeOrdered (treeInsert k v t)"
  using assms(1)
proof (induction t)
  case Nil
  show ?case using assms(2) by (simp add: treeOrdered_def)
next
  case (Cons e t)
  obtain k' v' where e: "e = (k', v')" by (cases e)
  from Cons.prems have k': "\<not> isNaN k'" and le: "\<forall>x \<in> set t. js_le k' (fst x)"
    and tl: "treeOrdered t"
    unfolding e treeOrdered_Cons by simp_all
  show ?case
  proof (cases "js_gt k k'")
    case True
    then have "js_le k' k" by (simp add: js_gt_def js_lt_imp_le)
    then have "\<forall>x \<in> set (treeInsert k v t). js_le k' (fst x)"
      using le by (simp add: treeInsert_set)
    then show ?thesis using True k' Cons.IH[OF tl]
      unfolding e by (simp add: treeOrdered_Cons)
  next
    case False
    then have kk': "js_le k k'" using js_le_total[OF assms(2) k'] by (simp add: js_gt_def)
    have "\<forall>x \<in> set ((k', v') # t). js_le k (fst x)"
    proof
      fix x assume "x \<in> set ((k', v') # t)"
      then have "x = (k', v') \<or> x \<in> set t" by simp
      then show "js_le k (fst x)"
      proof
        assume "x = (k', v')"
        then show ?thesis using kk' by simp
      next
        assume "x \<in> set t"
        with le have "js_le k' (fst x)" by (rule bspec)
        with kk' show ?thesis by (rule js_le_trans)
      qed
    qed
    moreover have "treeOrdered ((k', v') # t)" using Cons.prems by (simp only: e)
    ultimately show ?thesis using False assms(2)
      unfolding e by (simp add: treeOrdered_Cons[of "(k, v)"])
  qed
qed

subsection \<open>The tree stands for the pending calls\<close>

lemma groupOf_treeSet:
  assumes "treeStrict t" "\<not> isNaN p" "\<not> isNaN p'" "treeGet p t = Some q"
  shows "groupOf (treeSet p v t) p' = (if p' = p then v else groupOf t p')"
  using assms(4) by (simp add: groupOf_def treeGet_treeSet[OF assms(1,2,3)])

lemma groupOf_treeRemove:
  assumes "treeStrict t" "\<not> isNaN p" "\<not> isNaN p'"
  shows "groupOf (treeRemove p t) p' = (if p' = p then [] else groupOf t p')"
  by (simp add: groupOf_def treeGet_treeRemove[OF assms])

lemma groupOf_treeInsert:
  assumes "treeStrict t" "\<not> isNaN p" "\<not> isNaN p'" "treeGet p t = None"
  shows "groupOf (treeInsert p v t) p' = (if p' = p then v else groupOf t p')"
proof -
  have "p \<notin> fst ` set t" using assms(4) treeGet_None_iff[OF assms(1,2)] by simp
  from treeGet_treeInsert[OF assms(1,2,3) this] show ?thesis by (simp add: groupOf_def)
qed

lemma queuesRepresentI:
  assumes "treeStrict t" "\<And>e. e \<in> set t \<Longrightarrow> snd e \<noteq> []"
    "\<And>e. e \<in> set pending \<Longrightarrow> \<not> isNaN (fst e)"
    "\<And>p. \<not> isNaN p \<Longrightarrow> groupOf t p = map snd (filter (\<lambda>e. fst e = p) pending)"
  shows "queuesRepresent t pending"
  unfolding queuesRepresent_def using assms by blast

lemma queuesRepresentD:
  assumes "queuesRepresent t pending"
  shows "treeStrict t" "\<And>e. e \<in> set t \<Longrightarrow> snd e \<noteq> []"
    "\<And>e. e \<in> set pending \<Longrightarrow> \<not> isNaN (fst e)"
    "\<And>p. \<not> isNaN p \<Longrightarrow> groupOf t p = map snd (filter (\<lambda>e. fst e = p) pending)"
  using assms unfolding queuesRepresent_def by blast+

lemma queuesRepresent_empty: "queuesRepresent [] []"
  by (simp add: queuesRepresent_def groupOf_def)

lemma addAwaiter_represents:
  assumes "queuesRepresent t pending" "\<not> isNaN p"
  shows "queuesRepresent (addAwaiter p a t) (pending @ [(p, a)])"
proof -
  note inv = queuesRepresentD[OF assms(1)]
  have grp: "groupOf t p = map snd (filter (\<lambda>e. fst e = p) pending)"
    using assms(2) by (rule inv(4))
  have nn: "\<not> isNaN (fst e)" if "e \<in> set (pending @ [(p, a)])" for e
  proof -
    from that have "e \<in> set pending \<or> e = (p, a)" by auto
    then show ?thesis
    proof
      assume "e \<in> set pending"
      then show ?thesis by (rule inv(3))
    next
      assume "e = (p, a)"
      then show ?thesis using assms(2) by simp
    qed
  qed
  show ?thesis
  proof (cases "treeGet p t")
    case None
    then have t': "addAwaiter p a t = treeInsert p [a] t" by (simp add: addAwaiter_def)
    have notin: "p \<notin> fst ` set t" using None treeGet_None_iff[OF inv(1) assms(2)] by simp
    have empty: "map snd (filter (\<lambda>e. fst e = p) pending) = []"
      using grp None by (simp add: groupOf_def)
    show ?thesis unfolding t'
    proof (rule queuesRepresentI)
      show "treeStrict (treeInsert p [a] t)" using inv(1) assms(2) notin by (rule treeStrict_treeInsert)
      show "snd e \<noteq> []" if "e \<in> set (treeInsert p [a] t)" for e
      proof -
        from that have "e = (p, [a]) \<or> e \<in> set t" by (simp add: treeInsert_set)
        then show ?thesis
        proof
          assume "e = (p, [a])"
          then show ?thesis by simp
        next
          assume "e \<in> set t"
          then show ?thesis by (rule inv(2))
        qed
      qed
      show "\<not> isNaN (fst e)" if "e \<in> set (pending @ [(p, a)])" for e
        using that by (rule nn)
      show "groupOf (treeInsert p [a] t) p' = map snd (filter (\<lambda>e. fst e = p') (pending @ [(p, a)]))"
        if "\<not> isNaN p'" for p'
        using groupOf_treeInsert[OF inv(1) assms(2) that None, of "[a]"] inv(4)[OF that] empty
        by auto
    qed
  next
    case (Some q)
    then have t': "addAwaiter p a t = treeSet p (q @ [a]) t" by (simp add: addAwaiter_def)
    have q: "q = map snd (filter (\<lambda>e. fst e = p) pending)"
      using grp Some by (simp add: groupOf_def)
    show ?thesis unfolding t'
    proof (rule queuesRepresentI)
      show "treeStrict (treeSet p (q @ [a]) t)" using inv(1) by simp
      show "snd e \<noteq> []" if "e \<in> set (treeSet p (q @ [a]) t)" for e
      proof -
        from treeSet_member[OF that] show ?thesis
        proof
          assume "e \<in> set t"
          then show ?thesis by (rule inv(2))
        next
          assume "snd e = q @ [a]"
          then show ?thesis by simp
        qed
      qed
      show "\<not> isNaN (fst e)" if "e \<in> set (pending @ [(p, a)])" for e
        using that by (rule nn)
      show "groupOf (treeSet p (q @ [a]) t) p' = map snd (filter (\<lambda>e. fst e = p') (pending @ [(p, a)]))"
        if "\<not> isNaN p'" for p'
        using groupOf_treeSet[OF inv(1) assms(2) that Some, of "q @ [a]"] inv(4)[OF that] q
        by auto
    qed
  qed
qed

lemma removeFirstAwaiter_represents:
  assumes "queuesRepresent t pending" "\<not> isNaN p"
    "removeFirstAwaiter p (\<lambda>x. x = a) t = (success, t')"
  shows "queuesRepresent t' (if success then remove1 (p, a) pending else pending)"
proof -
  note inv = queuesRepresentD[OF assms(1)]
  have grp: "groupOf t p = map snd (filter (\<lambda>e. fst e = p) pending)"
    using assms(2) by (rule inv(4))
  show ?thesis
  proof (cases "treeGet p t")
    case None
    then show ?thesis using assms(1,3) by (auto simp: removeFirstAwaiter_def)
  next
    case (Some q)
    have q: "q = map snd (filter (\<lambda>e. fst e = p) pending)"
      using grp Some by (simp add: groupOf_def)
    have mem: "(p, q) \<in> set t" using inv(1) assms(2) Some by (rule treeGet_Some_member)
    then have qne: "q \<noteq> []" using inv(2) by force
    have res: "success = (a \<in> set q)"
      "t' = (if remove1 a q = [] then treeRemove p t else treeSet p (remove1 a q) t)"
      using assms(3) Some by (auto simp: removeFirstAwaiter_def removeOne_eq split: if_splits)
    let ?pending' = "if success then remove1 (p, a) pending else pending"
    have "set ?pending' \<subseteq> set pending" using set_remove1_subset[of "(p, a)" pending] by simp
    then have nn: "\<not> isNaN (fst e)" if "e \<in> set ?pending'" for e
      using that inv(3) by blast
    have same: "map snd (filter (\<lambda>e. fst e = p) ?pending') = remove1 a q"
      using res(1) q by (auto simp: filter_remove1_same remove1_idem)
    have other: "map snd (filter (\<lambda>e. fst e = p') ?pending') = groupOf t p'"
      if "\<not> isNaN p'" "p' \<noteq> p" for p'
      using inv(4)[OF that(1)] that(2) by (simp add: filter_remove1_other)
    show ?thesis
    proof (cases "remove1 a q = []")
      case True
      then have t': "t' = treeRemove p t" using res(2) by simp
      show ?thesis unfolding t'
      proof (rule queuesRepresentI)
        show "treeStrict (treeRemove p t)" using inv(1) by (rule treeStrict_treeRemove)
        show "snd e \<noteq> []" if "e \<in> set (treeRemove p t)" for e
          using that treeRemove_subset[of p t] inv(2) by blast
        show "\<not> isNaN (fst e)" if "e \<in> set ?pending'" for e using that by (rule nn)
        show "groupOf (treeRemove p t) p' = map snd (filter (\<lambda>e. fst e = p') ?pending')"
          if "\<not> isNaN p'" for p'
        proof -
          have g: "groupOf (treeRemove p t) p' = (if p' = p then [] else groupOf t p')"
            using inv(1) assms(2) that by (rule groupOf_treeRemove)
          show ?thesis
          proof (cases "p' = p")
            case True
            have "map snd (filter (\<lambda>e. fst e = p') ?pending') = []"
              unfolding True using same \<open>remove1 a q = []\<close> by (rule trans)
            then show ?thesis using g True by simp
          next
            case False
            then show ?thesis using other[OF that False] g by simp
          qed
        qed
      qed
    next
      case False
      then have t': "t' = treeSet p (remove1 a q) t" using res(2) by simp
      show ?thesis unfolding t'
      proof (rule queuesRepresentI)
        show "treeStrict (treeSet p (remove1 a q) t)" using inv(1) by simp
        show "snd e \<noteq> []" if "e \<in> set (treeSet p (remove1 a q) t)" for e
        proof -
          from treeSet_member[OF that] show ?thesis
          proof
            assume "e \<in> set t"
            then show ?thesis by (rule inv(2))
          next
            assume "snd e = remove1 a q"
            then show ?thesis using False by simp
          qed
        qed
        show "\<not> isNaN (fst e)" if "e \<in> set ?pending'" for e using that by (rule nn)
        show "groupOf (treeSet p (remove1 a q) t) p' = map snd (filter (\<lambda>e. fst e = p') ?pending')"
          if "\<not> isNaN p'" for p'
        proof -
          have g: "groupOf (treeSet p (remove1 a q) t) p' =
                     (if p' = p then remove1 a q else groupOf t p')"
            using inv(1) assms(2) that Some by (rule groupOf_treeSet)
          show ?thesis
          proof (cases "p' = p")
            case True
            have "map snd (filter (\<lambda>e. fst e = p') ?pending') = remove1 a q"
              unfolding True by (rule same)
            then show ?thesis using g True by simp
          next
            case False
            then show ?thesis using other[OF that False] g by simp
          qed
        qed
      qed
    qed
  qed
qed

lemma represents_priority_le_last:
  assumes "queuesRepresent t pending" "e \<in> set pending" "t \<noteq> []"
  shows "fst e = fst (last t) \<or> js_lt (fst e) (fst (last t))"
proof -
  note inv = queuesRepresentD[OF assms(1)]
  have nn: "\<not> isNaN (fst e)" using assms(2) by (rule inv(3))
  have "e \<in> set (filter (\<lambda>x. fst x = fst e) pending)" using assms(2) by simp
  then have "filter (\<lambda>x. fst x = fst e) pending \<noteq> []" by (metis empty_iff empty_set)
  then have "groupOf t (fst e) \<noteq> []" unfolding inv(4)[OF nn] by simp
  then have "treeGet (fst e) t \<noteq> None" by (auto simp: groupOf_def split: option.splits)
  then obtain q where g: "treeGet (fst e) t = Some q" by (cases "treeGet (fst e) t") simp_all
  from inv(1) nn g have "(fst e, q) \<in> set t" by (rule treeGet_Some_member)
  with inv(1) show ?thesis by (rule treeStrict_last)
qed

lemma represents_nonempty:
  assumes "queuesRepresent t pending" "e \<in> set pending"
  shows "t \<noteq> []"
proof
  assume "t = []"
  note inv = queuesRepresentD[OF assms(1)]
  have nn: "\<not> isNaN (fst e)" using assms(2) by (rule inv(3))
  have "e \<in> set (filter (\<lambda>x. fst x = fst e) pending)" using assms(2) by simp
  then have "filter (\<lambda>x. fst x = fst e) pending \<noteq> []" by (metis empty_iff empty_set)
  then have "groupOf t (fst e) \<noteq> []" unfolding inv(4)[OF nn] by simp
  then show False using \<open>t = []\<close> by (simp add: groupOf_def)
qed

lemma represents_last:
  assumes "queuesRepresent t pending" "t \<noteq> []"
  obtains p a q where "last t = (p, a # q)" "\<not> isNaN p"
    "map snd (filter (\<lambda>e. fst e = p) pending) = a # q"
proof -
  note inv = queuesRepresentD[OF assms(1)]
  obtain p q0 where l: "last t = (p, q0)" by (cases "last t")
  have mem: "(p, q0) \<in> set t" using assms(2) l last_in_set by metis
  then have "snd (p, q0) \<noteq> []" by (rule inv(2))
  then obtain a q where q0: "q0 = a # q" by (cases q0) auto
  have nn: "\<not> isNaN p" using inv(1) mem by (rule treeStrict_keys)
  have "treeGet p t = Some q0" using inv(1) mem by (rule treeGet_member)
  then have "groupOf t p = q0" by (simp add: groupOf_def)
  then have "map snd (filter (\<lambda>e. fst e = p) pending) = a # q" using inv(4)[OF nn] q0 by simp
  moreover have "last t = (p, a # q)" using l q0 by simp
  ultimately show ?thesis using nn that by simp
qed

lemma nextAwaiter_empty:
  assumes "queuesRepresent t pending"
  shows "(nextAwaiter t = None) = (pending = [])"
proof (cases "t = []")
  case True
  have "pending = []"
  proof (rule ccontr)
    assume "pending \<noteq> []"
    then obtain e where "e \<in> set pending" by (cases pending) auto
    from represents_nonempty[OF assms this] True show False by simp
  qed
  then show ?thesis using True by (simp add: nextAwaiter_def treeEnd_def)
next
  case False
  obtain p a q where
    l: "last t = (p, a # q)" "\<not> isNaN p" "map snd (filter (\<lambda>e. fst e = p) pending) = a # q"
    by (rule represents_last[OF assms False])
  from l(3) have "pending \<noteq> []" by auto
  then show ?thesis using False l(1) by (simp add: nextAwaiter_def treeEnd_def)
qed

lemma nextAwaiter_pick:
  assumes "queuesRepresent t pending" "nextAwaiter t = Some (p, a)"
  shows "\<exists>ys zs. pending = ys @ (p, a) # zs \<and> (\<forall>y \<in> set ys. js_lt (fst y) p) \<and>
           (\<forall>z \<in> set zs. js_le (fst z) p)"
proof -
  note inv = queuesRepresentD[OF assms(1)]
  have ne: "t \<noteq> []" using assms(2) by (auto simp: nextAwaiter_def treeEnd_def)
  obtain p0 a0 q where
    l: "last t = (p0, a0 # q)" "\<not> isNaN p0"
       "map snd (filter (\<lambda>e. fst e = p0) pending) = a0 # q"
    by (rule represents_last[OF assms(1) ne])
  from assms(2) ne l(1) have pa: "p0 = p" "a0 = a" by (simp_all add: nextAwaiter_def treeEnd_def)
  from l(3) obtain e rest where f: "filter (\<lambda>e. fst e = p) pending = e # rest" "snd e = a"
    unfolding pa by (cases "filter (\<lambda>e. fst e = p) pending") auto
  from f(1) obtain ys zs where
    sp: "pending = ys @ e # zs" "\<forall>y \<in> set ys. fst y \<noteq> p" "fst e = p"
    unfolding filter_eq_Cons_iff by blast
  have e: "e = (p, a)" using sp(3) f(2) by (cases e) simp
  have le: "fst x = p \<or> js_lt (fst x) p" if "x \<in> set pending" for x
    using represents_priority_le_last[OF assms(1) that ne] l(1) pa by simp
  have ys: "\<forall>y \<in> set ys. js_lt (fst y) p"
  proof
    fix y assume y: "y \<in> set ys"
    then have "y \<in> set pending" using sp(1) by simp
    from le[OF this] sp(2) y show "js_lt (fst y) p" by blast
  qed
  have zs: "\<forall>z \<in> set zs. js_le (fst z) p"
  proof
    fix z assume "z \<in> set zs"
    then have "z \<in> set pending" using sp(1) by simp
    from le[OF this] show "js_le (fst z) p"
    proof
      assume "fst z = p"
      then show ?thesis using l(2) pa js_le_refl by simp
    next
      assume "js_lt (fst z) p"
      then show ?thesis by (rule js_lt_imp_le)
    qed
  qed
  from sp(1) e ys zs show ?thesis by blast
qed

lemma watcherServes_represents:
  assumes "queuesRepresent t pending" "nextAwaiter t = Some (p, a)"
  shows "queuesRepresent (snd (removeFirstAwaiter p (\<lambda>x. x = a) t)) (remove1 (p, a) pending)"
proof -
  note inv = queuesRepresentD[OF assms(1)]
  have ne: "t \<noteq> []" using assms(2) by (auto simp: nextAwaiter_def treeEnd_def)
  obtain p0 a0 q where
    l: "last t = (p0, a0 # q)" "\<not> isNaN p0"
       "map snd (filter (\<lambda>e. fst e = p0) pending) = a0 # q"
    by (rule represents_last[OF assms(1) ne])
  from assms(2) ne l(1) have pa: "p0 = p" "a0 = a" by (simp_all add: nextAwaiter_def treeEnd_def)
  have "(p, a # q) \<in> set t" using ne l(1) pa last_in_set by metis
  with inv(1) have get: "treeGet p t = Some (a # q)" by (rule treeGet_member)
  obtain success t' where r: "removeFirstAwaiter p (\<lambda>x. x = a) t = (success, t')"
    by (cases "removeFirstAwaiter p (\<lambda>x. x = a) t")
  then have "success" using get by (auto simp: removeFirstAwaiter_def split: if_splits)
  with removeFirstAwaiter_represents[OF assms(1) _ r] l(2) pa r show ?thesis by simp
qed

lemma limiterStep_represents:
  assumes "queuesRepresent t pending" "validPriorities [e]"
    "limiterStep e (t, pending, served) = (t', pending', served')"
  shows "queuesRepresent t' pending'"
proof (cases e)
  case (ConsumeTokensAsync count priority ident)
  then show ?thesis using assms addAwaiter_represents by (auto simp: Let_def)
next
  case (CancelCall priority awaiter)
  obtain success t1 where r: "removeFirstAwaiter priority (\<lambda>a. a = awaiter) t = (success, t1)"
    by (cases "removeFirstAwaiter priority (\<lambda>a. a = awaiter) t")
  have "\<not> isNaN priority" using assms(2) CancelCall by simp
  from removeFirstAwaiter_represents[OF assms(1) this r] assms(3) r show ?thesis
    by (auto simp: CancelCall split: if_splits)
next
  case WatcherServes
  show ?thesis
  proof (cases "nextAwaiter t")
    case None
    then show ?thesis using assms(1,3) WatcherServes by simp
  next
    case (Some pa)
    obtain p a where pa: "pa = (p, a)" by (cases pa)
    from watcherServes_represents[OF assms(1) Some[unfolded pa]] assms(3)
    show ?thesis by (auto simp: WatcherServes Some pa)
  qed
qed

lemma validPriorities_Cons: "validPriorities (e # es) = (validPriorities [e] \<and> validPriorities es)"
  by (cases e) simp_all

lemma limiterRun_represents:
  assumes "queuesRepresent t pending" "validPriorities es"
    "limiterRun es (t, pending, served) = (t', pending', served')"
  shows "queuesRepresent t' pending'"
  using assms
proof (induction es arbitrary: t pending served)
  case Nil
  then show ?case by simp
next
  case (Cons e es)
  obtain t1 p1 s1 where st: "limiterStep e (t, pending, served) = (t1, p1, s1)"
    by (cases "limiterStep e (t, pending, served)")
  from Cons.prems(2) have v: "validPriorities [e]" "validPriorities es"
    using validPriorities_Cons by blast+
  have "queuesRepresent t1 p1" using Cons.prems(1) v(1) st by (rule limiterStep_represents)
  moreover have "limiterRun es (t1, p1, s1) = (t', pending', served')"
    using Cons.prems(3) st by simp
  ultimately show ?case using v(2) Cons.IH by blast
qed


text \<open>
  C3: after any sequence of calls, cancellations and services, the awaiter that the watcher
  reads next is the first of the queue of the greatest priority. Among the pending calls
  in the order of their arrival, every call that arrived before it has a smaller priority
  and no call has a greater one: the awaiters are served by descending priority, and in
  the order of their arrival among equal priorities. The watcher finds no awaiter exactly
  when no call is pending.
\<close>

theorem watcher_serves_highest_priority_first:
  assumes "validPriorities es" "limiterRun es ([], [], []) = (t, pending, served)"
  shows "(pending = [] \<longrightarrow> nextAwaiter t = None) \<and>
         (pending \<noteq> [] \<longrightarrow>
            (\<exists>p a ys zs. nextAwaiter t = Some (p, a) \<and> pending = ys @ (p, a) # zs \<and>
               (\<forall>y \<in> set ys. js_lt (fst y) p) \<and> (\<forall>z \<in> set zs. js_le (fst z) p) \<and>
               snd (limiterStep WatcherServes (t, pending, served)) =
                 (ys @ zs, served @ [(p, a)])))"
proof -
  have rep: "queuesRepresent t pending"
    using queuesRepresent_empty assms by (rule limiterRun_represents)
  have "\<exists>p a ys zs. nextAwaiter t = Some (p, a) \<and> pending = ys @ (p, a) # zs \<and>
               (\<forall>y \<in> set ys. js_lt (fst y) p) \<and> (\<forall>z \<in> set zs. js_le (fst z) p) \<and>
               snd (limiterStep WatcherServes (t, pending, served)) =
                 (ys @ zs, served @ [(p, a)])" if "pending \<noteq> []"
  proof -
    from that nextAwaiter_empty[OF rep] obtain p a where n: "nextAwaiter t = Some (p, a)"
      by (cases "nextAwaiter t") auto
    from nextAwaiter_pick[OF rep n] obtain ys zs where
      sp: "pending = ys @ (p, a) # zs" "\<forall>y \<in> set ys. js_lt (fst y) p"
        "\<forall>z \<in> set zs. js_le (fst z) p" by blast
    have "(p, a) \<notin> set ys"
    proof
      assume "(p, a) \<in> set ys"
      with sp(2) have "js_lt (fst (p, a)) p" by (rule bspec)
      then show False by simp
    qed
    then have "remove1 (p, a) pending = ys @ zs" unfolding sp(1) by (simp add: remove1_append)
    then have "snd (limiterStep WatcherServes (t, pending, served)) = (ys @ zs, served @ [(p, a)])"
      using n by simp
    with n sp show ?thesis by blast
  qed
  then show ?thesis using nextAwaiter_empty[OF rep] by blast
qed

theorem watcher_serves_highest_priority_first_witness:
  "validPriorities exampleEvents \<and>
   limiterRun exampleEvents ([], [], []) = (exampleTree, examplePending, []) \<and>
   examplePending \<noteq> [] \<and>
   (\<exists>p a ys zs. nextAwaiter exampleTree = Some (p, a) \<and> examplePending = ys @ (p, a) # zs \<and>
      (\<forall>y \<in> set ys. js_lt (fst y) p) \<and> (\<forall>z \<in> set zs. js_le (fst z) p) \<and>
      snd (limiterStep WatcherServes (exampleTree, examplePending, [])) =
        (ys @ zs, [] @ [(p, a)]))"
proof -
  have v: "validPriorities exampleEvents" by (simp add: exampleEvents_def)
  have r: "limiterRun exampleEvents ([], [], []) = (exampleTree, examplePending, [])"
    by (simp add: exampleEvents_def exampleTree_def examplePending_def addAwaiter_def
        removeFirstAwaiter_def keyEq_def js_gt_def Let_def)
  have n: "examplePending \<noteq> []" by (simp add: examplePending_def)
  from watcher_serves_highest_priority_first[OF v r] v r n show ?thesis by blast
qed

end
